theory Spec2Isabelle
  imports Complex_Main
begin

section \<open>CustomRender: the intake / queue / flush scheduler of src/index.ts\<close>

text \<open>
  The plugin hides freshly inserted DOM elements with a CSS class and reveals them over
  several animation frames. This theory embeds the scheduler of \<^verbatim>\<open>src/index.ts\<close>:
  \<^verbatim>\<open>enqueueElement\<close>, \<^verbatim>\<open>enqueueTree\<close>, \<^verbatim>\<open>handleMutations\<close>, \<^verbatim>\<open>scheduleFlush\<close>,
  \<^verbatim>\<open>flushQueue\<close>, \<^verbatim>\<open>revealAllPending\<close>, the \<^verbatim>\<open>active\<close> settings listener and \<^verbatim>\<open>stop\<close>.

  Module-level variables become fields of one state record that every function takes and
  returns. The host platform is part of that state as far as the scheduler touches it:
  the class list of every element, the browser's list of outstanding animation frame
  callbacks, and the readings of \<^verbatim>\<open>performance.now()\<close>.

  The status indicator (\<^verbatim>\<open>updateIndicatorState\<close> and friends), the style sheet and the
  start-up timers are left out: they only toggle the indicator's own classes and never
  read or write the pending store, the pending class or the frame handle.
\<close>

subsection \<open>Constants\<close>

definition PENDING_CLASS :: string where
  "PENDING_CLASS = ''dom-vsync-pending''"

definition IGNORE_ATTR :: string where
  "IGNORE_ATTR = ''data-dom-vsync-ignore''"

definition QUEUE_LIMIT :: nat where
  "QUEUE_LIMIT = 4000"

definition EXCLUDED_TAGS :: "string list" where
  "EXCLUDED_TAGS = [''HTML'', ''HEAD'', ''BODY'', ''STYLE'', ''SCRIPT'', ''LINK'', ''META'']"

definition ELEMENT_NODE :: nat where
  "ELEMENT_NODE = 1"

definition TEXT_NODE :: nat where
  "TEXT_NODE = 3"

definition COMMENT_NODE :: nat where
  "COMMENT_NODE = 8"

subsection \<open>DOM nodes\<close>

text \<open>
  An element is identified by a reference; two JavaScript values denote the same element
  exactly when the references are equal. The structure below is what the intake walk reads
  of an inserted subtree: node type, tag name, id, attribute names and children. The class
  list, which the scheduler mutates, lives in the state, keyed by the reference.
\<close>

type_synonym ref = nat

datatype node =
    Element ref string string "string list" "node list"
  | Text ref
  | Comment ref

fun nodeRef :: "node \<Rightarrow> ref" where
  "nodeRef (Element r tag eid attrs cs) = r"
| "nodeRef (Text r) = r"
| "nodeRef (Comment r) = r"

fun nodeType :: "node \<Rightarrow> nat" where
  "nodeType (Element r tag eid attrs cs) = ELEMENT_NODE"
| "nodeType (Text r) = TEXT_NODE"
| "nodeType (Comment r) = COMMENT_NODE"

fun childNodes :: "node \<Rightarrow> node list" where
  "childNodes (Element r tag eid attrs cs) = cs"
| "childNodes (Text r) = []"
| "childNodes (Comment r) = []"

fun hasAttribute :: "node \<Rightarrow> string \<Rightarrow> bool" where
  "hasAttribute (Element r tag eid attrs cs) a = (a \<in> set attrs)"
| "hasAttribute (Text r) a = False"
| "hasAttribute (Comment r) a = False"

text \<open>A node as the change observer reports it: the chain of its ancestor elements at the
  time of the callback, nearest first, and the node itself with its subtree. Of an ancestor
  only the attributes are ever read.\<close>

type_synonym addedNode = "node list \<times> node"

record mutationRecord =
  addedNodes :: "addedNode list"

text \<open>\<^verbatim>\<open>root.closest("[data-dom-vsync-ignore]")\<close>: the first inclusive ancestor that has the
  attribute, or null.\<close>

definition closest :: "node list \<Rightarrow> node \<Rightarrow> string \<Rightarrow> node option" where
  "closest ancs rootEl a = find (\<lambda>n. hasAttribute n a) (rootEl # ancs)"

subsection \<open>The state\<close>

record state =
  active :: bool
  frameBudgetMs :: real
  maxOpsPerFrame :: real
  rafId :: nat
  pendingQueue :: "ref list"
  pendingSet :: "ref list"
  isFlushing :: bool
  isStopped :: bool
  classList :: "ref \<Rightarrow> string list"
  rafCallbacks :: "nat list"
  rafHandle :: nat
  perfNow :: "nat \<Rightarrow> real"
  perfReads :: nat
  numberSub :: "real \<Rightarrow> real \<Rightarrow> real"

text \<open>
  \<^item> \<open>active\<close>, \<open>frameBudgetMs\<close>, \<open>maxOpsPerFrame\<close>: \<^verbatim>\<open>settings.store\<close>. Both numbers
    are JavaScript numbers that the code never rounds (the slider of \<^verbatim>\<open>maxOpsPerFrame\<close>
    does not stick to its markers), so both are reals here, fractional values included.
  \<^item> \<open>pendingSet\<close>: the JavaScript \<^verbatim>\<open>Set\<close>, as its list of entries in insertion order.
  \<^item> \<open>classList\<close>: the class tokens of every element.
  \<^item> \<open>rafCallbacks\<close>, \<open>rafHandle\<close>: the handles of the animation frame callbacks that are
    outstanding (each of them is \<^verbatim>\<open>flushQueue\<close>), and the last handle issued.
  \<^item> \<open>perfNow\<close>, \<open>perfReads\<close>: the value that the n-th call of \<^verbatim>\<open>performance.now()\<close>
    returns, and the number of calls made so far.
  \<^item> \<open>numberSub\<close>: the platform's subtraction of two numbers, which rounds its result to
    a double. It is a parameter of the model: nothing is assumed about it, so what is
    proved holds for the rounded subtraction as well as for the exact one. Comparisons
    of numbers are exact and are modelled as such.
\<close>

subsection \<open>Platform operations\<close>

definition Set_has :: "ref list \<Rightarrow> ref \<Rightarrow> bool" where
  "Set_has xs x = (x \<in> set xs)"

definition Set_add :: "ref \<Rightarrow> ref list \<Rightarrow> ref list" where
  "Set_add x xs = (if x \<in> set xs then xs else xs @ [x])"

definition Set_delete :: "ref \<Rightarrow> ref list \<Rightarrow> ref list" where
  "Set_delete x xs = removeAll x xs"

definition tokens_add :: "string \<Rightarrow> string list \<Rightarrow> string list" where
  "tokens_add t ts = (if t \<in> set ts then ts else ts @ [t])"

definition tokens_remove :: "string \<Rightarrow> string list \<Rightarrow> string list" where
  "tokens_remove t ts = removeAll t ts"

definition classList_add :: "ref \<Rightarrow> string \<Rightarrow> state \<Rightarrow> state" where
  "classList_add el t s = s\<lparr>classList := (classList s)(el := tokens_add t (classList s el))\<rparr>"

definition classList_remove :: "ref \<Rightarrow> string \<Rightarrow> state \<Rightarrow> state" where
  "classList_remove el t s = s\<lparr>classList := (classList s)(el := tokens_remove t (classList s el))\<rparr>"

definition classList_contains :: "state \<Rightarrow> ref \<Rightarrow> string \<Rightarrow> bool" where
  "classList_contains s el t = (t \<in> set (classList s el))"

definition performance_now :: "state \<Rightarrow> real \<times> state" where
  "performance_now s = (perfNow s (perfReads s), s\<lparr>perfReads := Suc (perfReads s)\<rparr>)"

definition requestAnimationFrame :: "state \<Rightarrow> nat \<times> state" where
  "requestAnimationFrame s =
     (let h = Suc (rafHandle s)
      in (h, s\<lparr>rafHandle := h, rafCallbacks := rafCallbacks s @ [h]\<rparr>))"

definition cancelAnimationFrame :: "nat \<Rightarrow> state \<Rightarrow> state" where
  "cancelAnimationFrame h s = s\<lparr>rafCallbacks := removeAll h (rafCallbacks s)\<rparr>"

subsection \<open>The scheduler\<close>

definition setFlushing :: "bool \<Rightarrow> state \<Rightarrow> state" where
  "setFlushing next s = (if isFlushing s = next then s else s\<lparr>isFlushing := next\<rparr>)"

fun revealEach :: "ref list \<Rightarrow> state \<Rightarrow> state" where
  "revealEach [] s = s"
| "revealEach (el # els) s = revealEach els (classList_remove el PENDING_CLASS s)"

definition revealAllPending :: "state \<Rightarrow> state" where
  "revealAllPending s =
     (let s1 = (if rafId s \<noteq> 0 then (cancelAnimationFrame (rafId s) s)\<lparr>rafId := 0\<rparr> else s);
          s2 = revealEach (pendingSet s1) s1;
          s3 = s2\<lparr>pendingSet := []\<rparr>;
          s4 = s3\<lparr>pendingQueue := []\<rparr>
      in setFlushing False s4)"

definition scheduleFlush :: "state \<Rightarrow> state" where
  "scheduleFlush s =
     (if \<not> active s then s
      else if rafId s \<noteq> 0 \<or> length (pendingQueue s) = 0 then s
      else (case requestAnimationFrame s of (h, s1) \<Rightarrow> setFlushing True (s1\<lparr>rafId := h\<rparr>)))"

function flushLoop :: "real \<Rightarrow> real \<Rightarrow> real \<Rightarrow> nat \<Rightarrow> state \<Rightarrow> state" where
  "flushLoop maxOps budget start ops s =
     (if length (pendingQueue s) > 0 then
        (let el = last (pendingQueue s);
             s1 = s\<lparr>pendingQueue := butlast (pendingQueue s)\<rparr>;
             s2 = s1\<lparr>pendingSet := Set_delete el (pendingSet s1)\<rparr>;
             s3 = classList_remove el PENDING_CLASS s2;
             ops1 = ops + 1
         in if real ops1 \<ge> maxOps then s3
            else (case performance_now s3 of (t, s4) \<Rightarrow>
                    if numberSub s4 t start \<ge> budget then s4
                    else flushLoop maxOps budget start ops1 s4))
      else s)"
  by pat_completeness auto
termination
  by (relation "measure (\<lambda>(maxOps, budget, start, ops, s). length (pendingQueue s))")
     (auto simp: performance_now_def classList_remove_def)

definition flushQueue :: "state \<Rightarrow> state" where
  "flushQueue s0 =
     (let s = s0\<lparr>rafId := 0\<rparr>
      in if \<not> active s then revealAllPending s
         else if length (pendingQueue s) = 0 then setFlushing False s
         else (let maxOps = maxOpsPerFrame s;
                   budget = frameBudgetMs s
               in case performance_now s of (start, s1) \<Rightarrow>
                    (let s2 = flushLoop maxOps budget start 0 s1
                     in if length (pendingQueue s2) > 0 then scheduleFlush s2
                        else setFlushing False s2)))"

fun shouldSkipElement :: "node \<Rightarrow> bool" where
  "shouldSkipElement (Element r tag eid attrs cs) =
     (if eid = ''app-mount'' then True
      else if tag \<in> set EXCLUDED_TAGS then True
      else False)"
| "shouldSkipElement (Text r) = False"
| "shouldSkipElement (Comment r) = False"

definition enqueueElement :: "ref \<Rightarrow> state \<Rightarrow> state" where
  "enqueueElement element s =
     (if Set_has (pendingSet s) element then s
      else (let s1 = classList_add element PENDING_CLASS s;
                s2 = s1\<lparr>pendingSet := Set_add element (pendingSet s1)\<rparr>
            in s2\<lparr>pendingQueue := pendingQueue s2 @ [element]\<rparr>))"

subsection \<open>The tree walker\<close>

datatype filterResult = FILTER_ACCEPT | FILTER_REJECT | FILTER_SKIP

text \<open>The callback that \<^verbatim>\<open>enqueueTree\<close> hands to \<^verbatim>\<open>document.createTreeWalker\<close>.\<close>

definition acceptNode :: "node \<Rightarrow> filterResult" where
  "acceptNode element =
     (if shouldSkipElement element then FILTER_SKIP
      else if hasAttribute element IGNORE_ATTR then FILTER_REJECT
      else FILTER_ACCEPT)"

text \<open>
  The walker itself is the platform's. By the DOM standard a node is filtered by
  \<^verbatim>\<open>whatToShow\<close> first (here \<^verbatim>\<open>SHOW_ELEMENT\<close>: any other node is skipped) and by the callback
  second, and successive calls of \<^verbatim>\<open>nextNode()\<close> return, in document order, the
  descendants of the current node that are accepted: below a rejected node nothing is
  visited, below a skipped node the children are visited. The walker's root, which is its
  first \<^verbatim>\<open>currentNode\<close>, is never filtered. \<open>nextNodes n\<close> is what the calls return from
  the subtree of a descendant \<open>n\<close>, and \<open>nextNodesList\<close> the same for a list of siblings.
\<close>

definition filterNode :: "node \<Rightarrow> filterResult" where
  "filterNode n = (if nodeType n \<noteq> ELEMENT_NODE then FILTER_SKIP else acceptNode n)"

fun nextNodes :: "node \<Rightarrow> node list"
  and nextNodesList :: "node list \<Rightarrow> node list" where
  "nextNodes (Element r tag eid attrs cs) =
     (case filterNode (Element r tag eid attrs cs) of
        FILTER_REJECT \<Rightarrow> []
      | FILTER_SKIP \<Rightarrow> nextNodesList cs
      | FILTER_ACCEPT \<Rightarrow> Element r tag eid attrs cs # nextNodesList cs)"
| "nextNodes (Text r) = []"
| "nextNodes (Comment r) = []"
| "nextNodesList [] = []"
| "nextNodesList (c # cs) = nextNodes c @ nextNodesList cs"

text \<open>The nodes that the loop of \<^verbatim>\<open>enqueueTree\<close> sees: \<^verbatim>\<open>walker.currentNode\<close>, which is the
  root, and then every result of \<^verbatim>\<open>walker.nextNode()\<close>.\<close>

definition walkerNodes :: "node \<Rightarrow> node list" where
  "walkerNodes rootEl = rootEl # nextNodesList (childNodes rootEl)"

fun enqueueEach :: "node list \<Rightarrow> state \<Rightarrow> state" where
  "enqueueEach [] s = s"
| "enqueueEach (current # rest) s = enqueueEach rest (enqueueElement (nodeRef current) s)"

definition enqueueTree :: "addedNode \<Rightarrow> state \<Rightarrow> state" where
  "enqueueTree an s =
     (case an of (ancs, rootEl) \<Rightarrow>
        if \<not> active s then s
        else if nodeType rootEl \<noteq> ELEMENT_NODE then s
        else if closest ancs rootEl IGNORE_ATTR \<noteq> None then s
        else (let s1 = enqueueEach (walkerNodes rootEl) s
              in if length (pendingQueue s1) \<ge> QUEUE_LIMIT then revealAllPending s1
                 else scheduleFlush s1))"

fun enqueueTrees :: "addedNode list \<Rightarrow> state \<Rightarrow> state" where
  "enqueueTrees [] s = s"
| "enqueueTrees (n # ns) s = enqueueTrees ns (enqueueTree n s)"

fun forEachMutation :: "mutationRecord list \<Rightarrow> state \<Rightarrow> state" where
  "forEachMutation [] s = s"
| "forEachMutation (m # ms) s = forEachMutation ms (enqueueTrees (addedNodes m) s)"

definition handleMutations :: "mutationRecord list \<Rightarrow> state \<Rightarrow> state" where
  "handleMutations mutations s = (if \<not> active s then s else forEachMutation mutations s)"

subsection \<open>Settings listener and teardown\<close>

text \<open>The listener that \<^verbatim>\<open>registerSettingsListeners\<close> installs for the \<^verbatim>\<open>active\<close> setting,
  and the assignment to the setting, after which the settings store calls the listener
  with the new value.\<close>

definition activeListener :: "bool \<Rightarrow> state \<Rightarrow> state" where
  "activeListener v s = (if \<not> v then revealAllPending s else scheduleFlush s)"

definition setActive :: "bool \<Rightarrow> state \<Rightarrow> state" where
  "setActive v s = activeListener v (s\<lparr>active := v\<rparr>)"

definition stop :: "state \<Rightarrow> state" where
  "stop s = revealAllPending (s\<lparr>isStopped := True\<rparr>)"

subsection \<open>The browser's frame and the events of a session\<close>

text \<open>Running the animation frame callbacks: the handles outstanding when the frame starts
  are taken in order; a handle that is still outstanding is removed and its callback,
  \<^verbatim>\<open>flushQueue\<close>, is called. Callbacks requested during the frame wait for the next one.\<close>

fun runCallbacks :: "nat list \<Rightarrow> state \<Rightarrow> state" where
  "runCallbacks [] s = s"
| "runCallbacks (h # hs) s =
     (if h \<in> set (rafCallbacks s)
      then runCallbacks hs (flushQueue (cancelAnimationFrame h s))
      else runCallbacks hs s)"

definition animationFrame :: "state \<Rightarrow> state" where
  "animationFrame s = runCallbacks (rafCallbacks s) s"

datatype event =
    Mutations "mutationRecord list"
  | AnimationFrame
  | SetActive bool
  | SetMaxOpsPerFrame real
  | SetFrameBudgetMs real
  | Enqueue ref
  | Stop

fun step :: "event \<Rightarrow> state \<Rightarrow> state" where
  "step (Mutations ms) s = handleMutations ms s"
| "step AnimationFrame s = animationFrame s"
| "step (SetActive v) s = setActive v s"
| "step (SetMaxOpsPerFrame n) s = s\<lparr>maxOpsPerFrame := n\<rparr>"
| "step (SetFrameBudgetMs b) s = s\<lparr>frameBudgetMs := b\<rparr>"
| "step (Enqueue el) s = enqueueElement el s"
| "step Stop s = stop s"

fun run :: "event list \<Rightarrow> state \<Rightarrow> state" where
  "run [] s = s"
| "run (e # es) s = run es (step e s)"

text \<open>The module's variables as they are initialised, with the default settings, over a
  document whose class lists are \<open>cls\<close>, a clock \<open>now\<close> and a number subtraction \<open>sub\<close>.\<close>

definition initialState ::
  "(ref \<Rightarrow> string list) \<Rightarrow> (nat \<Rightarrow> real) \<Rightarrow> (real \<Rightarrow> real \<Rightarrow> real) \<Rightarrow> state" where
  "initialState cls now sub =
     \<lparr>active = True, frameBudgetMs = 6, maxOpsPerFrame = 200, rafId = 0,
      pendingQueue = [], pendingSet = [], isFlushing = False, isStopped = False,
      classList = cls, rafCallbacks = [], rafHandle = 0, perfNow = now, perfReads = 0,
      numberSub = sub\<rparr>"

subsection \<open>Observations and invariants\<close>

definition hidden :: "state \<Rightarrow> ref \<Rightarrow> bool" where
  "hidden s el = classList_contains s el PENDING_CLASS"

definition storeInv :: "state \<Rightarrow> bool" where
  "storeInv s = (distinct (pendingQueue s) \<and> distinct (pendingSet s)
                  \<and> set (pendingQueue s) = set (pendingSet s))"

definition markerInv :: "state \<Rightarrow> bool" where
  "markerInv s = (\<forall>el. hidden s el = (el \<in> set (pendingSet s)))"

definition rafInv :: "state \<Rightarrow> bool" where
  "rafInv s = (rafCallbacks s = (if rafId s = 0 then [] else [rafId s]))"

definition sessionInv :: "state \<Rightarrow> bool" where
  "sessionInv s = (storeInv s \<and> markerInv s \<and> rafInv s)"

subsection \<open>Auxiliary definitions\<close>

text \<open>The first three statements of the loop body of \<^verbatim>\<open>flushQueue\<close> (pop, delete from the
  set, remove the class) as one state transformer, and the effect of one clock reading on
  the state. They only serve to state lemmas about \<open>flushLoop\<close>.\<close>

definition popReveal :: "state \<Rightarrow> state" where
  "popReveal s =
     classList_remove (last (pendingQueue s)) PENDING_CLASS
       (s\<lparr>pendingQueue := butlast (pendingQueue s),
          pendingSet := Set_delete (last (pendingQueue s)) (pendingSet s)\<rparr>)"

definition tick :: "state \<Rightarrow> state" where
  "tick s = s\<lparr>perfReads := Suc (perfReads s)\<rparr>"

text \<open>The nodes of a subtree, the root included, in document order; and the same for a
  list of siblings. They state which nodes lie below which.\<close>

fun subtreeNodes :: "node \<Rightarrow> node list"
  and subtreeNodesList :: "node list \<Rightarrow> node list" where
  "subtreeNodes (Element r tag eid attrs cs) = Element r tag eid attrs cs # subtreeNodesList cs"
| "subtreeNodes (Text r) = [Text r]"
| "subtreeNodes (Comment r) = [Comment r]"
| "subtreeNodesList [] = []"
| "subtreeNodesList (c # cs) = subtreeNodes c @ subtreeNodesList cs"

text \<open>Sample inputs: an element without attributes or children, a document in which no
  element has a class, and a clock that stands still.\<close>

definition plainDiv :: "ref \<Rightarrow> node" where
  "plainDiv r = Element r ''DIV'' [] [] []"

definition noClasses :: "ref \<Rightarrow> string list" where
  "noClasses = (\<lambda>el. [])"

definition steadyClock :: "nat \<Rightarrow> real" where
  "steadyClock = (\<lambda>n. 0)"

text \<open>A subtraction for the sample inputs. On the readings of the clock above, which are
  all 0, the rounded subtraction of the platform gives the same result.\<close>

definition exactDifference :: "real \<Rightarrow> real \<Rightarrow> real" where
  "exactDifference = (\<lambda>a b. a - b)"

text \<open>Further sample inputs: \<open>n\<close> separately added elements numbered from 0, and one
  element numbered 0 with \<open>n\<close> children numbered from 1.\<close>

definition manyDivs :: "nat \<Rightarrow> addedNode list" where
  "manyDivs n = map (\<lambda>r. ([], plainDiv r)) [0..<n]"

definition wideTree :: "nat \<Rightarrow> node" where
  "wideTree n = Element 0 ''DIV'' [] [] (map plainDiv [1..<Suc n])"

section \<open>Lemmas\<close>

subsection \<open>What each operation does to each field\<close>

lemma revealEach_fields [simp]:
  "pendingQueue (revealEach els s) = pendingQueue s"
  "pendingSet (revealEach els s) = pendingSet s"
  "rafId (revealEach els s) = rafId s"
  "rafCallbacks (revealEach els s) = rafCallbacks s"
  "rafHandle (revealEach els s) = rafHandle s"
  "active (revealEach els s) = active s"
  "isFlushing (revealEach els s) = isFlushing s"
  "isStopped (revealEach els s) = isStopped s"
  "maxOpsPerFrame (revealEach els s) = maxOpsPerFrame s"
  "frameBudgetMs (revealEach els s) = frameBudgetMs s"
  "perfNow (revealEach els s) = perfNow s"
  "numberSub (revealEach els s) = numberSub s"
  "perfReads (revealEach els s) = perfReads s"
  by (induction els arbitrary: s; simp add: classList_remove_def)+

lemma revealEach_classList:
  "classList (revealEach els s) el =
     (if el \<in> set els then tokens_remove PENDING_CLASS (classList s el) else classList s el)"
  by (induction els arbitrary: s) (auto simp: classList_remove_def tokens_remove_def)

lemma hidden_revealEach: "hidden (revealEach els s) el = (hidden s el \<and> el \<notin> set els)"
  by (simp add: hidden_def classList_contains_def revealEach_classList tokens_remove_def)

lemma setFlushing_fields [simp]:
  "pendingQueue (setFlushing b s) = pendingQueue s"
  "pendingSet (setFlushing b s) = pendingSet s"
  "rafId (setFlushing b s) = rafId s"
  "rafCallbacks (setFlushing b s) = rafCallbacks s"
  "rafHandle (setFlushing b s) = rafHandle s"
  "active (setFlushing b s) = active s"
  "isFlushing (setFlushing b s) = b"
  "isStopped (setFlushing b s) = isStopped s"
  "maxOpsPerFrame (setFlushing b s) = maxOpsPerFrame s"
  "frameBudgetMs (setFlushing b s) = frameBudgetMs s"
  "classList (setFlushing b s) = classList s"
  "perfNow (setFlushing b s) = perfNow s"
  "numberSub (setFlushing b s) = numberSub s"
  "perfReads (setFlushing b s) = perfReads s"
  by (auto simp: setFlushing_def)

lemma hidden_setFlushing [simp]: "hidden (setFlushing b s) el = hidden s el"
  by (simp add: hidden_def classList_contains_def)

lemma revealAllPending_fields [simp]:
  "pendingQueue (revealAllPending s) = []"
  "pendingSet (revealAllPending s) = []"
  "rafId (revealAllPending s) = 0"
  "rafHandle (revealAllPending s) = rafHandle s"
  "active (revealAllPending s) = active s"
  "isFlushing (revealAllPending s) = False"
  "isStopped (revealAllPending s) = isStopped s"
  "maxOpsPerFrame (revealAllPending s) = maxOpsPerFrame s"
  "frameBudgetMs (revealAllPending s) = frameBudgetMs s"
  "perfNow (revealAllPending s) = perfNow s"
  "numberSub (revealAllPending s) = numberSub s"
  "perfReads (revealAllPending s) = perfReads s"
  by (simp_all add: revealAllPending_def Let_def cancelAnimationFrame_def)

lemma revealAllPending_rafCallbacks:
  "rafCallbacks (revealAllPending s) = (if rafId s \<noteq> 0 then removeAll (rafId s) (rafCallbacks s) else rafCallbacks s)"
  by (simp add: revealAllPending_def Let_def cancelAnimationFrame_def)

lemma hidden_revealAllPending:
  "hidden (revealAllPending s) el = (hidden s el \<and> el \<notin> set (pendingSet s))"
  by (simp add: revealAllPending_def Let_def cancelAnimationFrame_def hidden_def classList_contains_def
      revealEach_classList tokens_remove_def)

lemma sessionInv_revealAllPending: "sessionInv s \<Longrightarrow> sessionInv (revealAllPending s)"
  by (auto simp: sessionInv_def storeInv_def markerInv_def rafInv_def hidden_revealAllPending
      revealAllPending_rafCallbacks)

lemma scheduleFlush_fields [simp]:
  "pendingQueue (scheduleFlush s) = pendingQueue s"
  "pendingSet (scheduleFlush s) = pendingSet s"
  "active (scheduleFlush s) = active s"
  "isStopped (scheduleFlush s) = isStopped s"
  "maxOpsPerFrame (scheduleFlush s) = maxOpsPerFrame s"
  "frameBudgetMs (scheduleFlush s) = frameBudgetMs s"
  "classList (scheduleFlush s) = classList s"
  "perfNow (scheduleFlush s) = perfNow s"
  "numberSub (scheduleFlush s) = numberSub s"
  "perfReads (scheduleFlush s) = perfReads s"
  by (simp_all add: scheduleFlush_def requestAnimationFrame_def Let_def)

lemma hidden_scheduleFlush [simp]: "hidden (scheduleFlush s) el = hidden s el"
  by (simp add: hidden_def classList_contains_def)

lemma rafInv_scheduleFlush: "rafInv s \<Longrightarrow> rafInv (scheduleFlush s)"
  by (simp add: rafInv_def scheduleFlush_def requestAnimationFrame_def Let_def split: if_splits)

lemma sessionInv_scheduleFlush: "sessionInv s \<Longrightarrow> sessionInv (scheduleFlush s)"
  by (simp add: sessionInv_def storeInv_def markerInv_def rafInv_scheduleFlush)

lemma enqueueElement_fields [simp]:
  "rafId (enqueueElement el s) = rafId s"
  "rafCallbacks (enqueueElement el s) = rafCallbacks s"
  "rafHandle (enqueueElement el s) = rafHandle s"
  "active (enqueueElement el s) = active s"
  "isFlushing (enqueueElement el s) = isFlushing s"
  "isStopped (enqueueElement el s) = isStopped s"
  "maxOpsPerFrame (enqueueElement el s) = maxOpsPerFrame s"
  "frameBudgetMs (enqueueElement el s) = frameBudgetMs s"
  "perfNow (enqueueElement el s) = perfNow s"
  "numberSub (enqueueElement el s) = numberSub s"
  "perfReads (enqueueElement el s) = perfReads s"
  by (simp_all add: enqueueElement_def Let_def classList_add_def)

lemma enqueueElement_store:
  "pendingQueue (enqueueElement el s) = (if el \<in> set (pendingSet s) then pendingQueue s else pendingQueue s @ [el])"
  "pendingSet (enqueueElement el s) = (if el \<in> set (pendingSet s) then pendingSet s else pendingSet s @ [el])"
  by (simp_all add: enqueueElement_def Let_def classList_add_def Set_has_def Set_add_def)

lemma hidden_enqueueElement:
  "hidden (enqueueElement el s) r = (if r = el \<and> el \<notin> set (pendingSet s) then True else hidden s r)"
  by (simp add: enqueueElement_def Let_def classList_add_def Set_has_def hidden_def
      classList_contains_def tokens_add_def)

lemma sessionInv_enqueueElement: "sessionInv s \<Longrightarrow> sessionInv (enqueueElement el s)"
  by (auto simp: sessionInv_def storeInv_def markerInv_def rafInv_def enqueueElement_store hidden_enqueueElement)

subsection \<open>The flush loop\<close>

declare flushLoop.simps [simp del]

lemma flushLoop_unfold:
  "flushLoop m b st ops s =
     (if pendingQueue s = [] then s
      else if m \<le> real (ops + 1) then popReveal s
      else if b \<le> numberSub s (perfNow s (perfReads s)) st then tick (popReveal s)
      else flushLoop m b st (ops + 1) (tick (popReveal s)))"
  by (subst flushLoop.simps)
     (simp add: Let_def popReveal_def tick_def performance_now_def classList_remove_def)

lemma flushLoop_induct2 [case_names step]:
  assumes "\<And>ops s. (pendingQueue s \<noteq> [] \<Longrightarrow> \<not> m \<le> real (ops + 1) \<Longrightarrow>
              \<not> b \<le> numberSub s (perfNow s (perfReads s)) st \<Longrightarrow> P (ops + 1) (tick (popReveal s)))
            \<Longrightarrow> P ops s"
  shows "P ops s"
proof (induction "length (pendingQueue s)" arbitrary: ops s)
  case 0
  show ?case by (rule assms) (use 0 in simp)
next
  case (Suc k)
  show ?case
  proof (rule assms)
    assume "pendingQueue s \<noteq> []"
    with Suc.hyps(2) have "k = length (pendingQueue (tick (popReveal s)))"
      by (simp add: popReveal_def tick_def classList_remove_def)
    then show "P (ops + 1) (tick (popReveal s))" by (rule Suc.hyps(1))
  qed
qed

lemma popReveal_fields [simp]:
  "pendingQueue (popReveal s) = butlast (pendingQueue s)"
  "pendingSet (popReveal s) = removeAll (last (pendingQueue s)) (pendingSet s)"
  "rafId (popReveal s) = rafId s"
  "rafCallbacks (popReveal s) = rafCallbacks s"
  "rafHandle (popReveal s) = rafHandle s"
  "active (popReveal s) = active s"
  "isFlushing (popReveal s) = isFlushing s"
  "isStopped (popReveal s) = isStopped s"
  "maxOpsPerFrame (popReveal s) = maxOpsPerFrame s"
  "frameBudgetMs (popReveal s) = frameBudgetMs s"
  "perfNow (popReveal s) = perfNow s"
  "numberSub (popReveal s) = numberSub s"
  "perfReads (popReveal s) = perfReads s"
  by (simp_all add: popReveal_def classList_remove_def Set_delete_def)

lemma tick_fields [simp]:
  "pendingQueue (tick s) = pendingQueue s"
  "pendingSet (tick s) = pendingSet s"
  "rafId (tick s) = rafId s"
  "rafCallbacks (tick s) = rafCallbacks s"
  "rafHandle (tick s) = rafHandle s"
  "active (tick s) = active s"
  "isFlushing (tick s) = isFlushing s"
  "isStopped (tick s) = isStopped s"
  "maxOpsPerFrame (tick s) = maxOpsPerFrame s"
  "frameBudgetMs (tick s) = frameBudgetMs s"
  "classList (tick s) = classList s"
  "perfNow (tick s) = perfNow s"
  "numberSub (tick s) = numberSub s"
  "perfReads (tick s) = Suc (perfReads s)"
  by (simp_all add: tick_def)

lemma hidden_tick [simp]: "hidden (tick s) el = hidden s el"
  by (simp add: hidden_def classList_contains_def)

lemma hidden_popReveal:
  "hidden (popReveal s) el = (hidden s el \<and> el \<noteq> last (pendingQueue s))"
  by (auto simp: hidden_def classList_contains_def popReveal_def classList_remove_def tokens_remove_def)

lemma popReveal_inv:
  assumes "storeInv s" "markerInv s" "pendingQueue s \<noteq> []"
  shows "storeInv (popReveal s) \<and> markerInv (popReveal s)"
proof -
  obtain xs x where q: "pendingQueue s = xs @ [x]"
    using assms(3) by (meson rev_exhaust)
  show ?thesis
    using assms(1,2) q
    by (auto simp: storeInv_def markerInv_def hidden_popReveal distinct_removeAll)
qed

lemma flushLoop_fields [simp]:
  "rafId (flushLoop m b st ops s) = rafId s"
  "rafCallbacks (flushLoop m b st ops s) = rafCallbacks s"
  "rafHandle (flushLoop m b st ops s) = rafHandle s"
  "active (flushLoop m b st ops s) = active s"
  "isFlushing (flushLoop m b st ops s) = isFlushing s"
  "isStopped (flushLoop m b st ops s) = isStopped s"
  "maxOpsPerFrame (flushLoop m b st ops s) = maxOpsPerFrame s"
  "frameBudgetMs (flushLoop m b st ops s) = frameBudgetMs s"
  "perfNow (flushLoop m b st ops s) = perfNow s"
  "numberSub (flushLoop m b st ops s) = numberSub s"
  by (induction ops s rule: flushLoop_induct2[where m = m and b = b and st = st];
      subst flushLoop_unfold; simp)+

lemma flushLoop_inv:
  "storeInv s \<Longrightarrow> markerInv s \<Longrightarrow>
     storeInv (flushLoop m b st ops s) \<and> markerInv (flushLoop m b st ops s)"
proof (induction ops s rule: flushLoop_induct2[where m = m and b = b and st = st])
  case (step ops s)
  show ?case
  proof (cases "pendingQueue s = []")
    case True
    then show ?thesis using step.prems by (subst (1 2) flushLoop_unfold) simp
  next
    case False
    have p: "storeInv (popReveal s) \<and> markerInv (popReveal s)"
      using popReveal_inv[OF step.prems False] .
    then have t: "storeInv (tick (popReveal s)) \<and> markerInv (tick (popReveal s))"
      by (simp add: storeInv_def markerInv_def)
    show ?thesis
      using False p t step.IH
      by (subst (1 2) flushLoop_unfold) simp
  qed
qed

lemma flushLoop_prefix:
  "length (pendingQueue (flushLoop m b st ops s)) \<le> length (pendingQueue s) \<and>
   pendingQueue (flushLoop m b st ops s) =
     take (length (pendingQueue (flushLoop m b st ops s))) (pendingQueue s)"
proof (induction ops s rule: flushLoop_induct2[where m = m and b = b and st = st])
  case (step ops s)
  let ?q = "pendingQueue s"
  show ?case
  proof (cases "?q = []")
    case True
    then show ?thesis by (subst (1 2 3) flushLoop_unfold) simp
  next
    case False
    have bl: "\<And>k. k \<le> length ?q - 1 \<Longrightarrow> take k (butlast ?q) = take k ?q"
      by (simp add: butlast_conv_take)
    have a: "butlast ?q = take (length (butlast ?q)) ?q"
      by (simp add: butlast_conv_take)
    show ?thesis
    proof (cases "m \<le> real (ops + 1) \<or> b \<le> numberSub s (perfNow s (perfReads s)) st")
      case True
      then show ?thesis using False a
        by (subst (1 2 3) flushLoop_unfold) auto
    next
      case stop: False
      let ?r = "flushLoop m b st (ops + 1) (tick (popReveal s))"
      have ih: "length (pendingQueue ?r) \<le> length ?q - 1 \<and>
                pendingQueue ?r = take (length (pendingQueue ?r)) (butlast ?q)"
        using step.IH False stop by simp
      have eq: "flushLoop m b st ops s = ?r"
        using False stop by (subst flushLoop_unfold) simp
      have l: "length (pendingQueue ?r) \<le> length ?q - 1" using ih by blast
      have e: "pendingQueue ?r = take (length (pendingQueue ?r)) (butlast ?q)" using ih by blast
      have l': "length (pendingQueue ?r) \<le> length ?q" using l by arith
      show ?thesis unfolding eq using l' trans[OF e bl[OF l]] by blast
    qed
  qed
qed

lemma flushLoop_decreases:
  "pendingQueue s \<noteq> [] \<Longrightarrow>
     length (pendingQueue (flushLoop m b st ops s)) < length (pendingQueue s)"
proof -
  assume ne: "pendingQueue s \<noteq> []"
  have "length (pendingQueue (flushLoop m b st (ops + 1) (tick (popReveal s))))
          \<le> length (pendingQueue (tick (popReveal s)))"
    using flushLoop_prefix by blast
  then show ?thesis using ne
    by (subst flushLoop_unfold) (auto simp: less_Suc_eq_le[symmetric])
qed

lemma flushLoop_budget:
  "pendingQueue s \<noteq> [] \<longrightarrow>
     (let n = length (pendingQueue s) - length (pendingQueue (flushLoop m b st ops s)) in
        1 \<le> n \<and>
        (\<forall>j. 1 \<le> j \<and> j < n \<longrightarrow>
           real (ops + j) < m \<and> numberSub s (perfNow s (perfReads s + j - 1)) st < b) \<and>
        (pendingQueue (flushLoop m b st ops s) = [] \<or> m \<le> real (ops + n)
           \<or> b \<le> numberSub s (perfNow s (perfReads s + n - 1)) st) \<and>
        perfReads (flushLoop m b st ops s)
          = perfReads s + (if m \<le> real (ops + n) then n - 1 else n))"
proof (induction ops s rule: flushLoop_induct2[where m = m and b = b and st = st])
  case (step ops s)
  let ?q = "pendingQueue s"
  show ?case
  proof (intro impI)
    assume ne: "?q \<noteq> []"
    then have L: "1 \<le> length ?q" by (cases ?q) auto
    show "let n = length ?q - length (pendingQueue (flushLoop m b st ops s)) in
        1 \<le> n \<and>
        (\<forall>j. 1 \<le> j \<and> j < n \<longrightarrow>
           real (ops + j) < m \<and> numberSub s (perfNow s (perfReads s + j - 1)) st < b) \<and>
        (pendingQueue (flushLoop m b st ops s) = [] \<or> m \<le> real (ops + n)
           \<or> b \<le> numberSub s (perfNow s (perfReads s + n - 1)) st) \<and>
        perfReads (flushLoop m b st ops s)
          = perfReads s + (if m \<le> real (ops + n) then n - 1 else n)"
    proof (cases "m \<le> real (ops + 1)")
      case True
      have eq: "flushLoop m b st ops s = popReveal s"
        using ne True by (subst flushLoop_unfold) simp
      show ?thesis unfolding eq using L True by (simp add: Let_def)
    next
      case cnt: False
      show ?thesis
      proof (cases "b \<le> numberSub s (perfNow s (perfReads s)) st")
        case True
        have eq: "flushLoop m b st ops s = tick (popReveal s)"
          using ne cnt True by (subst flushLoop_unfold) simp
        show ?thesis unfolding eq using L cnt True by (simp add: Let_def)
      next
        case tm: False
        let ?t = "tick (popReveal s)"
        let ?r = "flushLoop m b st (ops + 1) ?t"
        have eq: "flushLoop m b st ops s = ?r"
          using ne cnt tm by (subst flushLoop_unfold) simp
        show ?thesis
        proof (cases "butlast ?q = []")
          case True
          have r: "?r = ?t" using True by (subst flushLoop_unfold) simp
          have len: "length ?q = 1" using True ne by (cases ?q) (auto split: if_splits)
          show ?thesis unfolding eq r using len cnt tm True by (simp add: Let_def)
        next
          case False
          define k where "k = length (pendingQueue ?r)"
          define n' where "n' = length (butlast ?q) - k"
          have ih: "1 \<le> n' \<and>
             (\<forall>j. 1 \<le> j \<and> j < n' \<longrightarrow>
                real (ops + 1 + j) < m \<and> numberSub s (perfNow s (Suc (perfReads s) + j - 1)) st < b) \<and>
             (pendingQueue ?r = [] \<or> m \<le> real (ops + 1 + n')
                \<or> b \<le> numberSub s (perfNow s (Suc (perfReads s) + n' - 1)) st) \<and>
             perfReads ?r = Suc (perfReads s) + (if m \<le> real (ops + 1 + n') then n' - 1 else n')"
            using step.IH[OF ne cnt tm] False by (simp add: Let_def n'_def k_def)
          have kl: "k < length ?q - 1"
            using flushLoop_decreases[of ?t m b st "ops + 1"] False by (simp add: k_def)
          have n: "length ?q - k = Suc n'" using kl by (simp add: n'_def)
          have a1: "ops + 1 + n' = ops + Suc n'" by simp
          have c2: "\<forall>j. 1 \<le> j \<and> j < Suc n' \<longrightarrow>
                real (ops + j) < m \<and> numberSub s (perfNow s (perfReads s + j - 1)) st < b"
          proof (intro allI impI)
            fix j assume j: "1 \<le> j \<and> j < Suc n'"
            show "real (ops + j) < m \<and> numberSub s (perfNow s (perfReads s + j - 1)) st < b"
            proof (cases "j = 1")
              case True
              then show ?thesis using cnt tm by simp
            next
              case False
              then obtain i where i: "j = Suc i" "1 \<le> i" "i < n'"
                using j by (cases j) auto
              have "real (ops + 1 + i) < m
                    \<and> numberSub s (perfNow s (Suc (perfReads s) + i - 1)) st < b"
                using ih i by blast
              moreover have "ops + 1 + i = ops + j" "Suc (perfReads s) + i - 1 = perfReads s + j - 1"
                using i by simp_all
              ultimately show ?thesis by simp
            qed
          qed
          have c3: "pendingQueue ?r = [] \<or> m \<le> real (ops + Suc n')
                \<or> b \<le> numberSub s (perfNow s (perfReads s + Suc n' - 1)) st"
          proof -
            have "Suc (perfReads s) + n' - 1 = perfReads s + Suc n' - 1" using ih by simp
            then show ?thesis using ih unfolding a1 by metis
          qed
          have c4: "perfReads ?r
              = perfReads s + (if m \<le> real (ops + Suc n') then Suc n' - 1 else Suc n')"
          proof -
            have "perfReads ?r
               = Suc (perfReads s) + (if m \<le> real (ops + Suc n') then n' - 1 else n')"
              using ih unfolding a1 by blast
            then show ?thesis using ih by (simp split: if_splits)
          qed
          show ?thesis unfolding eq Let_def k_def[symmetric] n
            using c2 c3 c4 by simp
        qed
      qed
    qed
  qed
qed

lemma flushQueue_active:
  "active s \<Longrightarrow> flushQueue s =
     (if pendingQueue s = [] then setFlushing False (s\<lparr>rafId := 0\<rparr>)
      else if pendingQueue (flushLoop (maxOpsPerFrame s) (frameBudgetMs s) (perfNow s (perfReads s)) 0
                 (tick (s\<lparr>rafId := 0\<rparr>))) \<noteq> []
      then scheduleFlush (flushLoop (maxOpsPerFrame s) (frameBudgetMs s) (perfNow s (perfReads s)) 0
                 (tick (s\<lparr>rafId := 0\<rparr>)))
      else setFlushing False (flushLoop (maxOpsPerFrame s) (frameBudgetMs s) (perfNow s (perfReads s)) 0
                 (tick (s\<lparr>rafId := 0\<rparr>))))"
  by (simp add: flushQueue_def Let_def performance_now_def tick_def)

lemma flushQueue_inactive:
  "\<not> active s \<Longrightarrow> flushQueue s = revealAllPending (s\<lparr>rafId := 0\<rparr>)"
  by (simp add: flushQueue_def Let_def)

lemma sessionInv_setFlushing: "sessionInv s \<Longrightarrow> sessionInv (setFlushing b s)"
  by (simp add: sessionInv_def storeInv_def markerInv_def rafInv_def)

lemma sessionInv_flushQueue:
  assumes "storeInv s" "markerInv s" "rafCallbacks s = []"
  shows "sessionInv (flushQueue s)"
proof -
  let ?init = "s\<lparr>rafId := 0\<rparr>"
  have w0: "sessionInv ?init"
    using assms by (simp add: sessionInv_def storeInv_def markerInv_def rafInv_def hidden_def classList_contains_def)
  show ?thesis
  proof (cases "active s")
    case False
    then show ?thesis using sessionInv_revealAllPending[OF w0] by (simp add: flushQueue_inactive)
  next
    case True
    let ?r = "flushLoop (maxOpsPerFrame s) (frameBudgetMs s) (perfNow s (perfReads s)) 0 (tick ?init)"
    have "storeInv (tick ?init)" "markerInv (tick ?init)"
      using w0 by (simp_all add: sessionInv_def storeInv_def markerInv_def)
    then have "storeInv ?r \<and> markerInv ?r" by (rule flushLoop_inv)
    moreover have "rafInv ?r" using assms(3) by (simp add: rafInv_def)
    ultimately have wr: "sessionInv ?r" by (simp add: sessionInv_def)
    show ?thesis
      using True w0 wr by (simp add: flushQueue_active sessionInv_setFlushing sessionInv_scheduleFlush)
  qed
qed

lemma sessionInv_runCallbacks: "sessionInv s \<Longrightarrow> sessionInv (runCallbacks hs s)"
proof (induction hs arbitrary: s)
  case Nil
  then show ?case by simp
next
  case (Cons h hs)
  show ?case
  proof (cases "h \<in> set (rafCallbacks s)")
    case False
    then show ?thesis using Cons by simp
  next
    case True
    have "rafCallbacks s = [h]"
      using True Cons.prems by (auto simp: sessionInv_def rafInv_def split: if_splits)
    then have "rafCallbacks (cancelAnimationFrame h s) = []"
      by (simp add: cancelAnimationFrame_def)
    moreover have "storeInv (cancelAnimationFrame h s)" "markerInv (cancelAnimationFrame h s)"
      using Cons.prems
      by (simp_all add: sessionInv_def storeInv_def markerInv_def cancelAnimationFrame_def hidden_def
          classList_contains_def)
    ultimately have "sessionInv (flushQueue (cancelAnimationFrame h s))"
      using sessionInv_flushQueue by blast
    then show ?thesis using True Cons.IH by simp
  qed
qed

lemma sessionInv_animationFrame: "sessionInv s \<Longrightarrow> sessionInv (animationFrame s)"
  by (simp add: animationFrame_def sessionInv_runCallbacks)

lemma sessionInv_enqueueEach: "sessionInv s \<Longrightarrow> sessionInv (enqueueEach ns s)"
  by (induction ns arbitrary: s) (simp_all add: sessionInv_enqueueElement)

lemma enqueueEach_fields [simp]:
  "rafId (enqueueEach ns s) = rafId s"
  "rafCallbacks (enqueueEach ns s) = rafCallbacks s"
  "rafHandle (enqueueEach ns s) = rafHandle s"
  "active (enqueueEach ns s) = active s"
  "isFlushing (enqueueEach ns s) = isFlushing s"
  "isStopped (enqueueEach ns s) = isStopped s"
  "maxOpsPerFrame (enqueueEach ns s) = maxOpsPerFrame s"
  "frameBudgetMs (enqueueEach ns s) = frameBudgetMs s"
  "perfNow (enqueueEach ns s) = perfNow s"
  "numberSub (enqueueEach ns s) = numberSub s"
  "perfReads (enqueueEach ns s) = perfReads s"
  by (induction ns arbitrary: s; simp)+

lemma enqueueTree_fields [simp]:
  "active (enqueueTree an s) = active s"
  "maxOpsPerFrame (enqueueTree an s) = maxOpsPerFrame s"
  "frameBudgetMs (enqueueTree an s) = frameBudgetMs s"
  "perfNow (enqueueTree an s) = perfNow s"
  "numberSub (enqueueTree an s) = numberSub s"
  "perfReads (enqueueTree an s) = perfReads s"
  "isStopped (enqueueTree an s) = isStopped s"
  by (cases an; simp add: enqueueTree_def Let_def)+

lemma enqueueTrees_fields [simp]:
  "active (enqueueTrees ns s) = active s"
  "maxOpsPerFrame (enqueueTrees ns s) = maxOpsPerFrame s"
  "frameBudgetMs (enqueueTrees ns s) = frameBudgetMs s"
  "perfNow (enqueueTrees ns s) = perfNow s"
  "numberSub (enqueueTrees ns s) = numberSub s"
  "perfReads (enqueueTrees ns s) = perfReads s"
  "isStopped (enqueueTrees ns s) = isStopped s"
  by (induction ns arbitrary: s; simp)+

lemma forEachMutation_fields [simp]:
  "active (forEachMutation ms s) = active s"
  "maxOpsPerFrame (forEachMutation ms s) = maxOpsPerFrame s"
  "frameBudgetMs (forEachMutation ms s) = frameBudgetMs s"
  "perfNow (forEachMutation ms s) = perfNow s"
  "numberSub (forEachMutation ms s) = numberSub s"
  "perfReads (forEachMutation ms s) = perfReads s"
  "isStopped (forEachMutation ms s) = isStopped s"
  by (induction ms arbitrary: s; simp)+

lemma handleMutations_fields [simp]:
  "active (handleMutations ms s) = active s"
  "maxOpsPerFrame (handleMutations ms s) = maxOpsPerFrame s"
  "frameBudgetMs (handleMutations ms s) = frameBudgetMs s"
  "perfNow (handleMutations ms s) = perfNow s"
  "numberSub (handleMutations ms s) = numberSub s"
  "perfReads (handleMutations ms s) = perfReads s"
  "isStopped (handleMutations ms s) = isStopped s"
  by (simp_all add: handleMutations_def)

lemma sessionInv_enqueueTree: "sessionInv s \<Longrightarrow> sessionInv (enqueueTree an s)"
  by (cases an)
     (simp add: enqueueTree_def Let_def sessionInv_enqueueEach sessionInv_revealAllPending sessionInv_scheduleFlush)

lemma sessionInv_enqueueTrees: "sessionInv s \<Longrightarrow> sessionInv (enqueueTrees ns s)"
  by (induction ns arbitrary: s) (simp_all add: sessionInv_enqueueTree)

lemma sessionInv_forEachMutation: "sessionInv s \<Longrightarrow> sessionInv (forEachMutation ms s)"
  by (induction ms arbitrary: s) (simp_all add: sessionInv_enqueueTrees)

lemma sessionInv_handleMutations: "sessionInv s \<Longrightarrow> sessionInv (handleMutations ms s)"
  by (simp add: handleMutations_def sessionInv_forEachMutation)

lemma sessionInv_active_update: "sessionInv s \<Longrightarrow> sessionInv (s\<lparr>active := v\<rparr>)"
  by (simp add: sessionInv_def storeInv_def markerInv_def rafInv_def hidden_def classList_contains_def)

lemma sessionInv_setActive: "sessionInv s \<Longrightarrow> sessionInv (setActive v s)"
  by (simp add: setActive_def activeListener_def sessionInv_active_update sessionInv_revealAllPending sessionInv_scheduleFlush)

lemma sessionInv_stop: "sessionInv s \<Longrightarrow> sessionInv (stop s)"
proof -
  assume "sessionInv s"
  then have "sessionInv (s\<lparr>isStopped := True\<rparr>)"
    by (simp add: sessionInv_def storeInv_def markerInv_def rafInv_def hidden_def classList_contains_def)
  then show ?thesis by (simp add: stop_def sessionInv_revealAllPending)
qed

lemma sessionInv_step: "sessionInv s \<Longrightarrow> sessionInv (step e s)"
proof (cases e)
  case (SetMaxOpsPerFrame n)
  assume "sessionInv s"
  then show ?thesis unfolding SetMaxOpsPerFrame
    by (simp add: sessionInv_def storeInv_def markerInv_def rafInv_def hidden_def classList_contains_def)
next
  case (SetFrameBudgetMs b)
  assume "sessionInv s"
  then show ?thesis unfolding SetFrameBudgetMs
    by (simp add: sessionInv_def storeInv_def markerInv_def rafInv_def hidden_def classList_contains_def)
qed (simp_all add: sessionInv_handleMutations sessionInv_animationFrame sessionInv_setActive sessionInv_enqueueElement sessionInv_stop)

lemma sessionInv_run: "sessionInv s \<Longrightarrow> sessionInv (run es s)"
  by (induction es arbitrary: s) (simp_all add: sessionInv_step)

lemma sessionInv_initialState: "(\<forall>el. PENDING_CLASS \<notin> set (cls el)) \<Longrightarrow> sessionInv (initialState cls now sub)"
  by (simp add: sessionInv_def storeInv_def markerInv_def rafInv_def hidden_def classList_contains_def
      initialState_def)

lemma storeInv_cong:
  "pendingQueue t = pendingQueue s \<Longrightarrow> pendingSet t = pendingSet s \<Longrightarrow> storeInv t = storeInv s"
  by (simp add: storeInv_def)

lemma storeInv_enqueueElement: "storeInv s \<Longrightarrow> storeInv (enqueueElement el s)"
  by (auto simp: storeInv_def enqueueElement_store)

lemma storeInv_revealAllPending: "storeInv (revealAllPending s)"
  by (simp add: storeInv_def)

lemma storeInv_popReveal: "storeInv s \<Longrightarrow> pendingQueue s \<noteq> [] \<Longrightarrow> storeInv (popReveal s)"
proof -
  assume a: "storeInv s" "pendingQueue s \<noteq> []"
  obtain xs x where q: "pendingQueue s = xs @ [x]"
    using a(2) by (meson rev_exhaust)
  show ?thesis using a(1) q by (auto simp: storeInv_def distinct_removeAll)
qed

lemma storeInv_flushLoop: "storeInv s \<Longrightarrow> storeInv (flushLoop m b st ops s)"
proof (induction ops s rule: flushLoop_induct2[where m = m and b = b and st = st])
  case (step ops s)
  show ?case
  proof (cases "pendingQueue s = []")
    case True
    then show ?thesis using step.prems by (subst flushLoop_unfold) simp
  next
    case False
    have p: "storeInv (popReveal s)" using storeInv_popReveal[OF step.prems False] .
    then have t: "storeInv (tick (popReveal s))" by (simp add: storeInv_cong[of "tick (popReveal s)" "popReveal s"])
    show ?thesis using False p t step.IH by (subst flushLoop_unfold) simp
  qed
qed

lemma storeInv_flushQueue: "storeInv s \<Longrightarrow> storeInv (flushQueue s)"
proof (cases "active s")
  case False
  then show ?thesis by (simp add: flushQueue_inactive storeInv_revealAllPending)
next
  case True
  assume a: "storeInv s"
  let ?r = "flushLoop (maxOpsPerFrame s) (frameBudgetMs s) (perfNow s (perfReads s)) 0 (tick (s\<lparr>rafId := 0\<rparr>))"
  have "storeInv (tick (s\<lparr>rafId := 0\<rparr>))" using a by (simp add: storeInv_def)
  then have r: "storeInv ?r" by (rule storeInv_flushLoop)
  have r1: "storeInv (scheduleFlush ?r)" using r by (simp add: storeInv_def)
  have r2: "storeInv (setFlushing False ?r)" using r by (simp add: storeInv_def)
  have r3: "storeInv (setFlushing False (s\<lparr>rafId := 0\<rparr>))" using a by (simp add: storeInv_def)
  show ?thesis using True r1 r2 r3 by (simp add: flushQueue_active)
qed

lemma storeInv_runCallbacks: "storeInv s \<Longrightarrow> storeInv (runCallbacks hs s)"
proof (induction hs arbitrary: s)
  case Nil
  then show ?case by simp
next
  case (Cons h hs)
  have "storeInv (cancelAnimationFrame h s)"
    using Cons.prems by (simp add: storeInv_def cancelAnimationFrame_def)
  then have "storeInv (flushQueue (cancelAnimationFrame h s))" by (rule storeInv_flushQueue)
  then show ?case using Cons by simp
qed

lemma storeInv_enqueueEach: "storeInv s \<Longrightarrow> storeInv (enqueueEach ns s)"
  by (induction ns arbitrary: s) (simp_all add: storeInv_enqueueElement)

lemma storeInv_scheduleFlush: "storeInv s \<Longrightarrow> storeInv (scheduleFlush s)"
  by (simp add: storeInv_def)

lemma storeInv_enqueueTree: "storeInv s \<Longrightarrow> storeInv (enqueueTree an s)"
  by (cases an)
     (simp add: enqueueTree_def Let_def storeInv_enqueueEach storeInv_revealAllPending
        storeInv_scheduleFlush)

lemma storeInv_enqueueTrees: "storeInv s \<Longrightarrow> storeInv (enqueueTrees ns s)"
  by (induction ns arbitrary: s) (simp_all add: storeInv_enqueueTree)

lemma storeInv_forEachMutation: "storeInv s \<Longrightarrow> storeInv (forEachMutation ms s)"
  by (induction ms arbitrary: s) (simp_all add: storeInv_enqueueTrees)

lemma storeInv_step: "storeInv s \<Longrightarrow> storeInv (step e s)"
proof (cases e)
  case (SetActive v)
  assume "storeInv s"
  then have "storeInv (s\<lparr>active := v\<rparr>)" by (simp add: storeInv_def)
  then have "storeInv (scheduleFlush (s\<lparr>active := v\<rparr>))" by (rule storeInv_scheduleFlush)
  then show ?thesis unfolding SetActive
    by (cases v) (simp_all add: setActive_def activeListener_def storeInv_revealAllPending)
next
  case (SetMaxOpsPerFrame n)
  assume "storeInv s"
  then show ?thesis unfolding SetMaxOpsPerFrame by (simp add: storeInv_def)
next
  case (SetFrameBudgetMs b)
  assume "storeInv s"
  then show ?thesis unfolding SetFrameBudgetMs by (simp add: storeInv_def)
qed (simp_all add: handleMutations_def storeInv_forEachMutation animationFrame_def
      storeInv_runCallbacks storeInv_enqueueElement stop_def storeInv_revealAllPending)

lemma storeInv_run: "storeInv s \<Longrightarrow> storeInv (run es s)"
  by (induction es arbitrary: s) (simp_all add: storeInv_step)

lemma hidden_flushLoop_mono: "hidden (flushLoop m b st ops s) el \<Longrightarrow> hidden s el"
proof (induction ops s rule: flushLoop_induct2[where m = m and b = b and st = st])
  case (step ops s)
  show ?case
  proof (cases "pendingQueue s = []")
    case True
    then show ?thesis using step.prems by (subst (asm) flushLoop_unfold) simp
  next
    case False
    show ?thesis using step.prems False step.IH
      by (subst (asm) flushLoop_unfold) (auto simp: hidden_popReveal split: if_splits)
  qed
qed

lemma flushLoop_reveals_last:
  "pendingQueue s \<noteq> [] \<Longrightarrow> \<not> hidden (flushLoop m b st ops s) (last (pendingQueue s))"
proof
  assume ne: "pendingQueue s \<noteq> []" and h: "hidden (flushLoop m b st ops s) (last (pendingQueue s))"
  have "hidden (popReveal s) (last (pendingQueue s))"
    using h ne
    by (subst (asm) flushLoop_unfold) (auto split: if_splits dest: hidden_flushLoop_mono)
  then show False by (simp add: hidden_popReveal)
qed

lemma hidden_rafId_update [simp]: "hidden (s\<lparr>rafId := v\<rparr>) el = hidden s el"
  by (simp add: hidden_def classList_contains_def)


subsection \<open>One flush step under its budgets\<close>

lemma markerInv_flushLoop_result:
  assumes "active s" "storeInv s" "markerInv s"
  shows "storeInv (flushQueue s) \<and> markerInv (flushQueue s)"
proof -
  let ?t = "tick (s\<lparr>rafId := 0\<rparr>)"
  let ?r = "flushLoop (maxOpsPerFrame s) (frameBudgetMs s) (perfNow s (perfReads s)) 0 ?t"
  have "storeInv ?t" "markerInv ?t"
    using assms(2,3) by (simp_all add: storeInv_def markerInv_def)
  then have r: "storeInv ?r \<and> markerInv ?r" by (rule flushLoop_inv)
  have m0: "markerInv (setFlushing False (s\<lparr>rafId := 0\<rparr>))"
    using assms(3) by (simp add: markerInv_def)
  have m1: "markerInv (scheduleFlush ?r)" "markerInv (setFlushing False ?r)"
    using r by (simp_all add: markerInv_def)
  show ?thesis
    using assms(1) r m0 m1 storeInv_flushQueue[OF assms(2)] by (simp add: flushQueue_active)
qed

lemma flushQueue_loop_fields:
  assumes "active s" "pendingQueue s \<noteq> []"
  shows "pendingQueue (flushQueue s) =
           pendingQueue (flushLoop (maxOpsPerFrame s) (frameBudgetMs s) (perfNow s (perfReads s)) 0
                           (tick (s\<lparr>rafId := 0\<rparr>)))"
    and "perfReads (flushQueue s) =
           perfReads (flushLoop (maxOpsPerFrame s) (frameBudgetMs s) (perfNow s (perfReads s)) 0
                           (tick (s\<lparr>rafId := 0\<rparr>)))"
  using assms by (simp_all add: flushQueue_active)

lemma revealed_suffix:
  assumes "storeInv s" "markerInv s" "storeInv s'" "markerInv s'"
    and "pendingQueue s' = take k (pendingQueue s)"
  shows "(hidden s el \<and> \<not> hidden s' el) = (el \<in> set (drop k (pendingQueue s)))"
proof -
  have d: "set (take k (pendingQueue s)) \<inter> set (drop k (pendingQueue s)) = {}"
    using assms(1) by (metis append_take_drop_id distinct_append storeInv_def)
  have u: "set (pendingQueue s) = set (take k (pendingQueue s)) \<union> set (drop k (pendingQueue s))"
    by (metis append_take_drop_id set_append)
  have h: "hidden s el = (el \<in> set (pendingQueue s))"
    using assms(1,2) by (simp add: storeInv_def markerInv_def)
  have h': "hidden s' el = (el \<in> set (take k (pendingQueue s)))"
    using assms(3,4,5) by (simp add: storeInv_def markerInv_def)
  show ?thesis unfolding h h' using d u by auto
qed


lemma flushQueue_takes_suffix:
  assumes "active s" and "pendingQueue s \<noteq> []"
  shows "\<exists>k < length (pendingQueue s). pendingQueue (flushQueue s) = take k (pendingQueue s)"
proof -
  let ?t = "tick (s\<lparr>rafId := 0\<rparr>)"
  let ?r = "flushLoop (maxOpsPerFrame s) (frameBudgetMs s) (perfNow s (perfReads s)) 0 ?t"
  have ne: "pendingQueue ?t \<noteq> []" using assms(2) by simp
  have q: "pendingQueue (flushQueue s) = pendingQueue ?r"
    using assms by (simp add: flushQueue_active)
  have d: "length (pendingQueue ?r) < length (pendingQueue s)"
    using flushLoop_decreases[OF ne] by simp
  have p: "pendingQueue ?r = take (length (pendingQueue ?r)) (pendingQueue s)"
    using flushLoop_prefix[of "maxOpsPerFrame s" "frameBudgetMs s" "perfNow s (perfReads s)" 0 ?t] by simp
  show ?thesis unfolding q using d p by blast
qed

lemma flushQueue_fields [simp]:
  "active (flushQueue s) = active s"
  "maxOpsPerFrame (flushQueue s) = maxOpsPerFrame s"
  "frameBudgetMs (flushQueue s) = frameBudgetMs s"
  "perfNow (flushQueue s) = perfNow s"
  "numberSub (flushQueue s) = numberSub s"
  "isStopped (flushQueue s) = isStopped s"
  by (cases "active s"; simp add: flushQueue_active flushQueue_inactive)+

lemma frame_unlimited:
  assumes w: "sessionInv t" and a: "active t" and r: "rafId t \<noteq> 0" and ne: "pendingQueue t \<noteq> []"
    and m: "maxOpsPerFrame t = real k" and k: "1 \<le> k"
    and u: "\<forall>i j. numberSub t (perfNow t j) (perfNow t i) < frameBudgetMs t"
  shows "pendingQueue (animationFrame t) = take (length (pendingQueue t) - k) (pendingQueue t)
       \<and> sessionInv (animationFrame t) \<and> active (animationFrame t)
       \<and> maxOpsPerFrame (animationFrame t) = maxOpsPerFrame t
       \<and> frameBudgetMs (animationFrame t) = frameBudgetMs t
       \<and> perfNow (animationFrame t) = perfNow t
       \<and> numberSub (animationFrame t) = numberSub t
       \<and> (rafId (animationFrame t) \<noteq> 0) = (pendingQueue (animationFrame t) \<noteq> [])
       \<and> isFlushing (animationFrame t) = (pendingQueue (animationFrame t) \<noteq> [])"
proof -
  let ?q = "pendingQueue t"
  let ?c = "cancelAnimationFrame (rafId t) t"
  let ?t = "tick (?c\<lparr>rafId := 0\<rparr>)"
  let ?m = "maxOpsPerFrame t"
  let ?b = "frameBudgetMs t"
  let ?st = "perfNow t (perfReads t)"
  let ?r = "flushLoop ?m ?b ?st 0 ?t"
  have cb: "rafCallbacks t = [rafId t]" using w r by (simp add: sessionInv_def rafInv_def)
  have af: "animationFrame t = flushQueue ?c" by (simp add: animationFrame_def cb)
  have cf: "active ?c" "pendingQueue ?c = ?q" "maxOpsPerFrame ?c = ?m" "frameBudgetMs ?c = ?b"
    "perfNow ?c = perfNow t" "perfReads ?c = perfReads t" "numberSub ?c = numberSub t"
    using a by (simp_all add: cancelAnimationFrame_def)
  have fq: "flushQueue ?c = (if pendingQueue ?r \<noteq> [] then scheduleFlush ?r else setFlushing False ?r)"
    using cf ne by (simp add: flushQueue_active)
  have wa: "sessionInv (animationFrame t)" using w by (rule sessionInv_animationFrame)
  have net: "pendingQueue ?t \<noteq> []" using ne by (simp add: cancelAnimationFrame_def)
  define n where "n = length ?q - length (pendingQueue ?r)"
  have B: "1 \<le> n \<and>
        (\<forall>j. 1 \<le> j \<and> j < n \<longrightarrow> real (0 + j) < ?m) \<and>
        (pendingQueue ?r = [] \<or> ?m \<le> real (0 + n)
           \<or> ?b \<le> numberSub ?t (perfNow ?t (perfReads ?t + n - 1)) ?st)"
    using flushLoop_budget[of ?t ?m ?b ?st 0] net
    by (simp add: Let_def n_def cancelAnimationFrame_def)
  have nb: "\<not> ?b \<le> numberSub ?t (perfNow ?t (perfReads ?t + n - 1)) ?st"
    using u by (simp add: cancelAnimationFrame_def not_le)
  have pre: "length (pendingQueue ?r) \<le> length ?q"
    "pendingQueue ?r = take (length (pendingQueue ?r)) ?q"
    using flushLoop_prefix[of ?m ?b ?st 0 ?t] by (simp_all add: cancelAnimationFrame_def)
  have nk: "n \<le> k"
  proof (cases "n = 1")
    case True
    then show ?thesis using k by simp
  next
    case False
    then have "1 \<le> n - 1 \<and> n - 1 < n" using B by arith
    then have "real (0 + (n - 1)) < ?m" using B by blast
    then show ?thesis unfolding m by simp
  qed
  have len: "length (pendingQueue ?r) = length ?q - k"
  proof (cases "pendingQueue ?r = []")
    case True
    then have "n = length ?q" by (simp add: n_def)
    then have "length ?q \<le> k" using nk by simp
    then show ?thesis using True by simp
  next
    case False
    then have "?m \<le> real (0 + n)" using B nb by blast
    then have "k \<le> n" unfolding m by simp
    then have "n = k" using nk by simp
    then show ?thesis using pre(1) by (simp add: n_def)
  qed
  have pq: "pendingQueue (flushQueue ?c) = pendingQueue ?r" by (simp add: fq)
  have c1: "pendingQueue (flushQueue ?c) = take (length ?q - k) ?q"
    using pre(2) len pq by simp
  have rr: "rafId ?r = 0" "active ?r" by (simp_all add: cancelAnimationFrame_def a)
  have c2: "(rafId (flushQueue ?c) \<noteq> 0) = (pendingQueue ?r \<noteq> [])"
    "isFlushing (flushQueue ?c) = (pendingQueue ?r \<noteq> [])"
    using rr by (auto simp: fq scheduleFlush_def requestAnimationFrame_def Let_def)
  have c3: "active (flushQueue ?c)" "maxOpsPerFrame (flushQueue ?c) = ?m"
    "frameBudgetMs (flushQueue ?c) = ?b" "perfNow (flushQueue ?c) = perfNow t"
    "numberSub (flushQueue ?c) = numberSub t"
    using cf by simp_all
  show ?thesis using wa c1 c2 c3 unfolding af pq by simp
qed

lemma enqueue_plainDiv:
  assumes "active s" and "el \<notin> set (pendingSet s)" and "Suc (length (pendingQueue s)) < QUEUE_LIMIT"
  shows "pendingQueue (enqueueTree ([], plainDiv el) s) = pendingQueue s @ [el]
       \<and> pendingSet (enqueueTree ([], plainDiv el) s) = pendingSet s @ [el]
       \<and> active (enqueueTree ([], plainDiv el) s)
       \<and> rafId (enqueueTree ([], plainDiv el) s) \<noteq> 0
       \<and> maxOpsPerFrame (enqueueTree ([], plainDiv el) s) = maxOpsPerFrame s
       \<and> frameBudgetMs (enqueueTree ([], plainDiv el) s) = frameBudgetMs s
       \<and> perfNow (enqueueTree ([], plainDiv el) s) = perfNow s
       \<and> numberSub (enqueueTree ([], plainDiv el) s) = numberSub s"
  using assms
  by (auto simp: enqueueTree_def plainDiv_def closest_def walkerNodes_def Let_def
      enqueueElement_store scheduleFlush_def requestAnimationFrame_def)


subsection \<open>The intake: batches of plain elements, overflow\<close>

lemma enqueueTrees_append:
  "enqueueTrees (xs @ ys) s = enqueueTrees ys (enqueueTrees xs s)"
  by (induction xs arbitrary: s) simp_all

lemma enqueue_plainDiv_overflow:
  assumes "active s" and "el \<notin> set (pendingSet s)" and "QUEUE_LIMIT \<le> Suc (length (pendingQueue s))"
  shows "pendingQueue (enqueueTree ([], plainDiv el) s) = []
       \<and> pendingSet (enqueueTree ([], plainDiv el) s) = []
       \<and> rafId (enqueueTree ([], plainDiv el) s) = 0"
  using assms
  by (auto simp: enqueueTree_def plainDiv_def closest_def walkerNodes_def Let_def
      enqueueElement_store)

lemma enqueue_plainDivs_below_limit:
  "active s \<Longrightarrow> pendingQueue s = [0..<i] \<Longrightarrow> pendingSet s = [0..<i] \<Longrightarrow> i + k < QUEUE_LIMIT \<Longrightarrow>
     pendingQueue (enqueueTrees (map (\<lambda>r. ([], plainDiv r)) [i..<i + k]) s) = [0..<i + k]
   \<and> pendingSet (enqueueTrees (map (\<lambda>r. ([], plainDiv r)) [i..<i + k]) s) = [0..<i + k]"
proof (induction k arbitrary: i s)
  case 0
  then show ?case by simp
next
  case (Suc k)
  let ?s = "enqueueTree ([], plainDiv i) s"
  have st: "pendingQueue ?s = [0..<Suc i] \<and> pendingSet ?s = [0..<Suc i] \<and> active ?s"
    using enqueue_plainDiv[of s i] Suc.prems by simp
  have ih: "pendingQueue (enqueueTrees (map (\<lambda>r. ([], plainDiv r)) [Suc i..<Suc i + k]) ?s) = [0..<Suc i + k]
   \<and> pendingSet (enqueueTrees (map (\<lambda>r. ([], plainDiv r)) [Suc i..<Suc i + k]) ?s) = [0..<Suc i + k]"
    using Suc.IH[of ?s "Suc i"] st Suc.prems(4) by simp
  have "[i..<i + Suc k] = i # [Suc i..<Suc i + k]"
    by (simp add: upt_conv_Cons)
  then show ?case using ih by simp
qed

lemma manyDivs_4001:
  "manyDivs 4001 = manyDivs 3999 @ [([], plainDiv 3999), ([], plainDiv 4000)]"
proof -
  have s1: "[0..<3999 + 2] = [0..<3999] @ [3999..<3999 + 2]"
    by (rule upt_add_eq_append) simp
  have s2: "[3999..<3999 + 2] = [3999, 4000::nat]"
    by (simp add: upt_conv_Cons)
  have s3: "(3999::nat) + 2 = 4001" by simp
  have "[0..<4001] = [0..<3999] @ [3999, 4000]"
    using s1 s2 unfolding s3 by (rule trans[OF _ arg_cong])
  then show ?thesis by (simp only: manyDivs_def map_append list.map)
qed

lemma enqueueEach_queue_set:
  "storeInv s \<Longrightarrow> set (pendingQueue (enqueueEach ns s)) = set (pendingQueue s) \<union> nodeRef ` set ns"
proof (induction ns arbitrary: s)
  case Nil
  then show ?case by simp
next
  case (Cons n ns)
  have i: "storeInv (enqueueElement (nodeRef n) s)" using Cons.prems by (rule storeInv_enqueueElement)
  have "set (pendingQueue (enqueueElement (nodeRef n) s)) = insert (nodeRef n) (set (pendingQueue s))"
    using Cons.prems by (auto simp: enqueueElement_store storeInv_def)
  then show ?case using Cons.IH[OF i] by auto
qed

lemma nextNodesList_plainDivs: "nextNodesList (map plainDiv rs) = map plainDiv rs"
  by (induction rs)
     (simp_all add: plainDiv_def filterNode_def acceptNode_def EXCLUDED_TAGS_def IGNORE_ATTR_def)

lemma nodeRef_plainDiv: "nodeRef (plainDiv r) = r"
  by (simp add: plainDiv_def)

lemma nodeRef_plainDivs: "map (nodeRef \<circ> plainDiv) rs = rs"
  by (induction rs) (simp_all add: nodeRef_plainDiv)

lemma wideTree_facts:
  "nodeType (wideTree n) = ELEMENT_NODE"
  "closest [] (wideTree n) IGNORE_ATTR = None"
  "walkerNodes (wideTree n) = wideTree n # map plainDiv [1..<Suc n]"
  by (simp_all add: wideTree_def closest_def walkerNodes_def nextNodesList_plainDivs)

lemma wideTree_walk:
  "distinct (map nodeRef (walkerNodes (wideTree n)))"
  "length (walkerNodes (wideTree n)) = Suc n"
proof -
  have "map nodeRef (walkerNodes (wideTree n)) = 0 # [1..<Suc n]"
    by (simp add: wideTree_facts(3) nodeRef_plainDivs) (simp add: wideTree_def)
  then show "distinct (map nodeRef (walkerNodes (wideTree n)))" by simp
  show "length (walkerNodes (wideTree n)) = Suc n" by (simp add: wideTree_facts(3))
qed

subsection \<open>The intake walk\<close>

lemma subtreeNodes_self: "n \<in> set (subtreeNodes n)"
  by (cases n) simp_all

lemma subtreeNodes_childNodes: "subtreeNodes n = n # subtreeNodesList (childNodes n)"
  by (cases n) simp_all

lemma nextNodes_subset:
  "set (nextNodes n) \<subseteq> set (subtreeNodes n)"
  "set (nextNodesList cs) \<subseteq> set (subtreeNodesList cs)"
  by (induction n and cs rule: nextNodes_nextNodesList.induct)
     (auto split: filterResult.splits)

lemma nextNodes_accepted:
  "x \<in> set (nextNodes n) \<Longrightarrow> filterNode x = FILTER_ACCEPT"
  "x \<in> set (nextNodesList cs) \<Longrightarrow> filterNode x = FILTER_ACCEPT"
  by (induction n and cs rule: nextNodes_nextNodesList.induct)
     (auto split: filterResult.splits)

lemma subtreeNodes_trans:
  "R \<in> set (subtreeNodes n) \<Longrightarrow> set (subtreeNodes R) \<subseteq> set (subtreeNodes n)"
  "R \<in> set (subtreeNodesList cs) \<Longrightarrow> set (subtreeNodes R) \<subseteq> set (subtreeNodesList cs)"
  by (induction n and cs rule: subtreeNodes_subtreeNodesList.induct) auto

lemma rejected_subtree_not_walked:
  "distinct (map nodeRef (subtreeNodes n)) \<Longrightarrow> R \<in> set (subtreeNodes n) \<Longrightarrow>
     filterNode R = FILTER_REJECT \<Longrightarrow> M \<in> set (subtreeNodes R) \<Longrightarrow>
     nodeRef M \<notin> nodeRef ` set (nextNodes n)"
  "distinct (map nodeRef (subtreeNodesList cs)) \<Longrightarrow> R \<in> set (subtreeNodesList cs) \<Longrightarrow>
     filterNode R = FILTER_REJECT \<Longrightarrow> M \<in> set (subtreeNodes R) \<Longrightarrow>
     nodeRef M \<notin> nodeRef ` set (nextNodesList cs)"
proof (induction n and cs rule: nextNodes_nextNodesList.induct)
  case (1 r tag eid attrs cs)
  let ?n = "Element r tag eid attrs cs"
  show ?case
  proof (cases "filterNode ?n")
    case FILTER_REJECT
    then show ?thesis by simp
  next
    case FILTER_SKIP
    then have Rcs: "R \<in> set (subtreeNodesList cs)" using 1(4,5) by auto
    have d: "distinct (map nodeRef (subtreeNodesList cs))" using 1(3) by simp
    show ?thesis using 1(2)[OF FILTER_SKIP d Rcs 1(5,6)] FILTER_SKIP by simp
  next
    case FILTER_ACCEPT
    then have Rcs: "R \<in> set (subtreeNodesList cs)" using 1(4,5) by auto
    have d: "distinct (map nodeRef (subtreeNodesList cs))" using 1(3) by simp
    have "M \<in> set (subtreeNodesList cs)" using subtreeNodes_trans(2)[OF Rcs] 1(6) by blast
    then have "nodeRef M \<noteq> r" using 1(3) by auto
    then show ?thesis using 1(1)[OF FILTER_ACCEPT d Rcs 1(5,6)] FILTER_ACCEPT by simp
  qed
next
  case (2 r)
  then show ?case by simp
next
  case (3 r)
  then show ?case by simp
next
  case 4
  then show ?case by simp
next
  case (5 c cs)
  have dc: "distinct (map nodeRef (subtreeNodes c))" and dcs: "distinct (map nodeRef (subtreeNodesList cs))"
    and dis: "nodeRef ` set (subtreeNodes c) \<inter> nodeRef ` set (subtreeNodesList cs) = {}"
    using 5(3) by auto
  show ?case
  proof (cases "R \<in> set (subtreeNodes c)")
    case True
    have Mc: "M \<in> set (subtreeNodes c)" using subtreeNodes_trans(1)[OF True] 5(6) by blast
    have a: "nodeRef M \<notin> nodeRef ` set (nextNodes c)" using 5(1)[OF dc True 5(5,6)] .
    have "nodeRef M \<notin> nodeRef ` set (subtreeNodesList cs)" using Mc dis by blast
    then have b: "nodeRef M \<notin> nodeRef ` set (nextNodesList cs)"
      using nextNodes_subset(2)[of cs] by blast
    show ?thesis using a b by auto
  next
    case False
    then have Rcs: "R \<in> set (subtreeNodesList cs)" using 5(4) by simp
    have Mcs: "M \<in> set (subtreeNodesList cs)" using subtreeNodes_trans(2)[OF Rcs] 5(6) by blast
    have b: "nodeRef M \<notin> nodeRef ` set (nextNodesList cs)" using 5(2)[OF dcs Rcs 5(5,6)] .
    have "nodeRef M \<notin> nodeRef ` set (subtreeNodes c)" using Mcs dis by blast
    then have a: "nodeRef M \<notin> nodeRef ` set (nextNodes c)"
      using nextNodes_subset(1)[of c] by blast
    show ?thesis using a b by auto
  qed
qed

lemma enqueueEach_queue_subset:
  "set (pendingQueue (enqueueEach ns s)) \<subseteq> set (pendingQueue s) \<union> nodeRef ` set ns"
proof (induction ns arbitrary: s)
  case Nil
  then show ?case by simp
next
  case (Cons n ns)
  have "set (pendingQueue (enqueueElement (nodeRef n) s)) \<subseteq> insert (nodeRef n) (set (pendingQueue s))"
    by (auto simp: enqueueElement_store)
  then show ?case using Cons.IH[of "enqueueElement (nodeRef n) s"] by auto
qed

lemma enqueueTree_queue_subset:
  "set (pendingQueue (enqueueTree (ancs, rootEl) s))
     \<subseteq> set (pendingQueue s) \<union> nodeRef ` set (walkerNodes rootEl)"
  using enqueueEach_queue_subset[of "walkerNodes rootEl" s]
  by (auto simp: enqueueTree_def Let_def)

lemma closest_Some:
  "(closest ancs rootEl a \<noteq> None) = (\<exists>n \<in> set (rootEl # ancs). hasAttribute n a)"
  unfolding closest_def find_None_iff by blast

lemma marked_not_accepted: "hasAttribute N IGNORE_ATTR \<Longrightarrow> filterNode N \<noteq> FILTER_ACCEPT"
  by (simp add: filterNode_def acceptNode_def)

lemma marked_rejected:
  "hasAttribute N IGNORE_ATTR \<Longrightarrow> \<not> shouldSkipElement N \<Longrightarrow> filterNode N = FILTER_REJECT"
  by (cases N) (simp_all add: filterNode_def acceptNode_def)

subsection \<open>A flush step whose time budget is never reached\<close>

lemma flushQueue_unlimited:
  assumes a: "active s" and ne: "pendingQueue s \<noteq> []"
    and lo: "real (k - 1) < maxOpsPerFrame s" and hi: "maxOpsPerFrame s \<le> real k" and k: "1 \<le> k"
    and u: "\<forall>i j. numberSub s (perfNow s j) (perfNow s i) < frameBudgetMs s"
  shows "pendingQueue (flushQueue s) = take (length (pendingQueue s) - k) (pendingQueue s)
       \<and> (k \<le> length (pendingQueue s) \<longrightarrow> perfReads (flushQueue s) = perfReads s + k)"
proof -
  let ?q = "pendingQueue s"
  let ?t = "tick (s\<lparr>rafId := 0\<rparr>)"
  let ?m = "maxOpsPerFrame s"
  let ?b = "frameBudgetMs s"
  let ?st = "perfNow s (perfReads s)"
  let ?r = "flushLoop ?m ?b ?st 0 ?t"
  have net: "pendingQueue ?t \<noteq> []" using ne by simp
  have pq: "pendingQueue (flushQueue s) = pendingQueue ?r"
    and pr: "perfReads (flushQueue s) = perfReads ?r"
    using flushQueue_loop_fields[OF a ne] by blast+
  define n where "n = length ?q - length (pendingQueue ?r)"
  have B: "1 \<le> n \<and>
        (\<forall>j. 1 \<le> j \<and> j < n \<longrightarrow> real (0 + j) < ?m) \<and>
        (pendingQueue ?r = [] \<or> ?m \<le> real (0 + n)
           \<or> ?b \<le> numberSub ?t (perfNow ?t (perfReads ?t + n - 1)) ?st) \<and>
        perfReads ?r = perfReads ?t + (if ?m \<le> real (0 + n) then n - 1 else n)"
    using flushLoop_budget[of ?t ?m ?b ?st 0] net by (simp add: Let_def n_def)
  have nb: "\<not> ?b \<le> numberSub ?t (perfNow ?t (perfReads ?t + n - 1)) ?st"
    using u by (simp add: not_le)
  have pre: "length (pendingQueue ?r) \<le> length ?q"
    "pendingQueue ?r = take (length (pendingQueue ?r)) ?q"
    using flushLoop_prefix[of ?m ?b ?st 0 ?t] by simp_all
  have nk: "n \<le> k"
  proof (cases "n = 1")
    case True
    then show ?thesis using k by simp
  next
    case False
    then have "1 \<le> n - 1 \<and> n - 1 < n" using B by arith
    then have "real (0 + (n - 1)) < ?m" using B by blast
    then have "real (n - 1) < real k" using hi by simp
    then show ?thesis by simp
  qed
  have full: "pendingQueue ?r \<noteq> [] \<Longrightarrow> n = k"
  proof -
    assume "pendingQueue ?r \<noteq> []"
    then have "?m \<le> real (0 + n)" using B nb by blast
    then have "real (k - 1) < real n" using lo by simp
    then show "n = k" using nk by simp
  qed
  have len: "length (pendingQueue ?r) = length ?q - k"
  proof (cases "pendingQueue ?r = []")
    case True
    then have "n = length ?q" by (simp add: n_def)
    then have "length ?q \<le> k" using nk by simp
    then show ?thesis using True by simp
  next
    case False
    then show ?thesis using full pre(1) by (simp add: n_def)
  qed
  have c1: "pendingQueue ?r = take (length ?q - k) ?q" using pre(2) len by simp
  have c2: "k \<le> length ?q \<longrightarrow> perfReads ?r = perfReads s + k"
  proof
    assume kl: "k \<le> length ?q"
    have "n = k" using len kl pre(1) by (simp add: n_def)
    then have "?m \<le> real (0 + n)" using hi by simp
    then have "perfReads ?r = perfReads ?t + (n - 1)" using B by simp
    then show "perfReads ?r = perfReads s + k" using \<open>n = k\<close> k by simp
  qed
  show ?thesis unfolding pq pr using c1 c2 by blast
qed

lemma manyDivs_queue:
  assumes "active s" and "pendingQueue s = []" and "pendingSet s = []" and "n < QUEUE_LIMIT"
  shows "pendingQueue (handleMutations [\<lparr>addedNodes = manyDivs n\<rparr>] s) = [0..<n]"
proof -
  have "pendingQueue (enqueueTrees (map (\<lambda>r. ([], plainDiv r)) [0..<0 + n]) s) = [0..<0 + n]"
    using enqueue_plainDivs_below_limit[of s 0 n] assms by simp
  then show ?thesis using assms(1) by (simp add: handleMutations_def manyDivs_def)
qed

text \<open>The definitions that the simplifier unfolds to run a session on concrete inputs.\<close>

lemmas session_defs = initialState_def noClasses_def steadyClock_def exactDifference_def
  plainDiv_def
  handleMutations_def enqueueTree_def closest_def walkerNodes_def enqueueElement_def
  Set_has_def Set_add_def classList_add_def tokens_add_def scheduleFlush_def
  requestAnimationFrame_def setFlushing_def QUEUE_LIMIT_def ELEMENT_NODE_def Let_def
  animationFrame_def cancelAnimationFrame_def flushQueue_def performance_now_def
  flushLoop.simps Set_delete_def classList_remove_def tokens_remove_def
  hidden_def classList_contains_def PENDING_CLASS_def IGNORE_ATTR_def filterNode_def
  acceptNode_def EXCLUDED_TAGS_def revealAllPending_def setActive_def activeListener_def
  stop_def

section \<open>The properties of the specification\<close>

text \<open>
  C1. At every observable point of a session the hidden marker and the pending store agree.
  A session is any sequence of events (change notifications, direct enqueues, animation
  frames, changes of the settings, teardown) from a state in which the invariants hold,
  as they do in the module's initial state over a document without the pending class.
  After every such sequence an element carries the pending class if and only if it is in
  the pending set, and if and only if it is in the pending queue.
\<close>

theorem hidden_marker_iff_pending:
  assumes "sessionInv s"
  shows "hidden (run es s) el = (el \<in> set (pendingSet (run es s)))
       \<and> hidden (run es s) el = (el \<in> set (pendingQueue (run es s)))"
  using sessionInv_run[OF assms, of es] by (simp add: sessionInv_def storeInv_def markerInv_def)

theorem hidden_marker_iff_pending_witness:
  "sessionInv (initialState noClasses steadyClock exactDifference)
   \<and> hidden (run [Mutations [\<lparr>addedNodes = [([], plainDiv 1), ([], plainDiv 2)]\<rparr>],
                  AnimationFrame, Mutations [\<lparr>addedNodes = [([], plainDiv 3)]\<rparr>]]
              (initialState noClasses steadyClock exactDifference)) 3
   \<and> 3 \<in> set (pendingSet
          (run [Mutations [\<lparr>addedNodes = [([], plainDiv 1), ([], plainDiv 2)]\<rparr>],
                AnimationFrame, Mutations [\<lparr>addedNodes = [([], plainDiv 3)]\<rparr>]]
              (initialState noClasses steadyClock exactDifference)))
   \<and> 3 \<in> set (pendingQueue
          (run [Mutations [\<lparr>addedNodes = [([], plainDiv 1), ([], plainDiv 2)]\<rparr>],
                AnimationFrame, Mutations [\<lparr>addedNodes = [([], plainDiv 3)]\<rparr>]]
              (initialState noClasses steadyClock exactDifference)))
   \<and> \<not> hidden (run [Mutations [\<lparr>addedNodes = [([], plainDiv 1), ([], plainDiv 2)]\<rparr>],
                  AnimationFrame, Mutations [\<lparr>addedNodes = [([], plainDiv 3)]\<rparr>]]
              (initialState noClasses steadyClock exactDifference)) 1
   \<and> 1 \<notin> set (pendingQueue
          (run [Mutations [\<lparr>addedNodes = [([], plainDiv 1), ([], plainDiv 2)]\<rparr>],
                AnimationFrame, Mutations [\<lparr>addedNodes = [([], plainDiv 3)]\<rparr>]]
              (initialState noClasses steadyClock exactDifference)))"
proof -
  let ?es = "[Mutations [\<lparr>addedNodes = [([], plainDiv 1), ([], plainDiv 2)]\<rparr>],
              AnimationFrame, Mutations [\<lparr>addedNodes = [([], plainDiv 3)]\<rparr>]]"
  let ?i = "initialState noClasses steadyClock exactDifference"
  have h: "sessionInv ?i"
    by (simp add: sessionInv_initialState noClasses_def)
  define x where "x = run ?es ?i"
  have q: "pendingQueue x = [3]"
    unfolding x_def by (simp add: session_defs)
  have e3: "hidden x 3 = (3 \<in> set (pendingSet x)) \<and> hidden x 3 = (3 \<in> set (pendingQueue x))"
    unfolding x_def using hidden_marker_iff_pending[OF h] .
  have e1: "hidden x 1 = (1 \<in> set (pendingSet x)) \<and> hidden x 1 = (1 \<in> set (pendingQueue x))"
    unfolding x_def using hidden_marker_iff_pending[OF h] .
  have "hidden x 3 \<and> 3 \<in> set (pendingSet x) \<and> 3 \<in> set (pendingQueue x)
        \<and> \<not> hidden x 1 \<and> 1 \<notin> set (pendingQueue x)"
    using e3 e1 unfolding q by auto
  then show ?thesis using h unfolding x_def by blast
qed

text \<open>
  C2 on the code. \<^verbatim>\<open>maxOpsPerFrame\<close> comes from a slider that does not stick to its markers
  and the loop compares the count with it as it is, \<^verbatim>\<open>ops >= maxOps\<close>, without rounding.
  With the setting at 20.5 and 22 elements pending, one call of \<^verbatim>\<open>flushQueue\<close> reveals 21
  elements, more than \<^verbatim>\<open>maxOpsPerFrame\<close>: only the oldest element stays pending and hidden.
  The clock is read 21 times, once at the start and once after each reveal but the last,
  where the count check ends the loop before the time check.
\<close>

theorem fractional_cap_overshoots:
  "maxOpsPerFrame (handleMutations [\<lparr>addedNodes = manyDivs 22\<rparr>]
      ((initialState noClasses steadyClock exactDifference)\<lparr>maxOpsPerFrame := 41 / 2\<rparr>)) = 41 / 2
   \<and> active (handleMutations [\<lparr>addedNodes = manyDivs 22\<rparr>]
      ((initialState noClasses steadyClock exactDifference)\<lparr>maxOpsPerFrame := 41 / 2\<rparr>))
   \<and> length (pendingQueue (handleMutations [\<lparr>addedNodes = manyDivs 22\<rparr>]
      ((initialState noClasses steadyClock exactDifference)\<lparr>maxOpsPerFrame := 41 / 2\<rparr>))) = 22
   \<and> pendingQueue (flushQueue (handleMutations [\<lparr>addedNodes = manyDivs 22\<rparr>]
      ((initialState noClasses steadyClock exactDifference)\<lparr>maxOpsPerFrame := 41 / 2\<rparr>))) = [0]
   \<and> hidden (handleMutations [\<lparr>addedNodes = manyDivs 22\<rparr>]
      ((initialState noClasses steadyClock exactDifference)\<lparr>maxOpsPerFrame := 41 / 2\<rparr>)) 1
   \<and> \<not> hidden (flushQueue (handleMutations [\<lparr>addedNodes = manyDivs 22\<rparr>]
      ((initialState noClasses steadyClock exactDifference)\<lparr>maxOpsPerFrame := 41 / 2\<rparr>))) 1
   \<and> hidden (flushQueue (handleMutations [\<lparr>addedNodes = manyDivs 22\<rparr>]
      ((initialState noClasses steadyClock exactDifference)\<lparr>maxOpsPerFrame := 41 / 2\<rparr>))) 0
   \<and> perfReads (flushQueue (handleMutations [\<lparr>addedNodes = manyDivs 22\<rparr>]
      ((initialState noClasses steadyClock exactDifference)\<lparr>maxOpsPerFrame := 41 / 2\<rparr>))) = 21"
proof -
  let ?i = "(initialState noClasses steadyClock exactDifference)\<lparr>maxOpsPerFrame := 41 / 2\<rparr>"
  define s where "s = handleMutations [\<lparr>addedNodes = manyDivs 22\<rparr>] ?i"
  have c: "maxOpsPerFrame s = 41 / 2" "active s" "perfReads s = 0"
    unfolding s_def by (simp_all add: initialState_def)
  have q: "pendingQueue s = [0..<22]"
    unfolding s_def by (rule manyDivs_queue) (simp_all add: initialState_def QUEUE_LIMIT_def)
  have w: "sessionInv s"
    unfolding s_def
    by (rule sessionInv_handleMutations)
       (simp add: sessionInv_def storeInv_def markerInv_def rafInv_def hidden_def
          classList_contains_def initialState_def noClasses_def)
  have si: "storeInv s" and mi: "markerInv s" using w by (simp_all add: sessionInv_def)
  have u: "\<forall>i j. numberSub s (perfNow s j) (perfNow s i) < frameBudgetMs s"
    unfolding s_def by (simp add: initialState_def steadyClock_def exactDifference_def)
  have ne: "pendingQueue s \<noteq> []" unfolding q by simp
  have F: "pendingQueue (flushQueue s) = take (length (pendingQueue s) - 21) (pendingQueue s)
       \<and> (21 \<le> length (pendingQueue s) \<longrightarrow> perfReads (flushQueue s) = perfReads s + 21)"
    by (rule flushQueue_unlimited[OF c(2) ne _ _ _ u]) (simp_all add: c(1))
  have t: "take (length [0..<22] - 21) [0..<22] = [0::nat]" by simp
  have f1: "pendingQueue (flushQueue s) = [0]" using F unfolding q t by blast
  have f2: "perfReads (flushQueue s) = 21" using F c(3) unfolding q by simp
  have inv: "storeInv (flushQueue s) \<and> markerInv (flushQueue s)"
    using markerInv_flushLoop_result[OF c(2) si mi] .
  have hf: "\<And>el. hidden (flushQueue s) el = (el \<in> set (pendingQueue (flushQueue s)))"
    using inv by (simp add: storeInv_def markerInv_def)
  have hs: "\<And>el. hidden s el = (el \<in> set (pendingQueue s))"
    using si mi by (simp add: storeInv_def markerInv_def)
  have h1: "hidden s 1" unfolding hs q by simp
  have h2: "\<not> hidden (flushQueue s) 1" "hidden (flushQueue s) 0" unfolding hf f1 by simp_all
  have l: "length (pendingQueue s) = 22" unfolding q by simp
  show ?thesis using c(1,2) l f1 f2 h1 h2 unfolding s_def by blast
qed

text \<open>
  C3, as stated, fails. A batch that adds 4001 plain elements one by one, to an empty
  store, does not end with an empty store: the overflow check runs at the end of every
  \<^verbatim>\<open>enqueueTree\<close> call, so the 4000th added element triggers the mass reveal and the
  4001st is enqueued afterwards. The batch ends with that element pending and hidden and
  with a frame callback outstanding.
\<close>

theorem overflow_batch_counterexample:
  "pendingQueue (handleMutations [\<lparr>addedNodes = manyDivs 4001\<rparr>]
                  (initialState noClasses steadyClock exactDifference)) = [4000]
   \<and> rafId (handleMutations [\<lparr>addedNodes = manyDivs 4001\<rparr>]
                  (initialState noClasses steadyClock exactDifference)) \<noteq> 0
   \<and> rafCallbacks (handleMutations [\<lparr>addedNodes = manyDivs 4001\<rparr>]
                  (initialState noClasses steadyClock exactDifference)) \<noteq> []
   \<and> hidden (handleMutations [\<lparr>addedNodes = manyDivs 4001\<rparr>]
                  (initialState noClasses steadyClock exactDifference)) 4000"
proof -
  let ?i = "initialState noClasses steadyClock exactDifference"
  let ?a = "enqueueTrees (manyDivs 3999) ?i"
  let ?b = "enqueueTree ([], plainDiv 3999) ?a"
  let ?c = "enqueueTree ([], plainDiv 4000) ?b"
  have i: "active ?i" "pendingQueue ?i = [0..<0]" "pendingSet ?i = [0..<0]"
    by (simp_all add: initialState_def)
  have a: "pendingQueue ?a = [0..<3999] \<and> pendingSet ?a = [0..<3999]"
    using enqueue_plainDivs_below_limit[OF i, of 3999] by (simp add: manyDivs_def QUEUE_LIMIT_def)
  have aa: "active ?a" using i by simp
  have b: "pendingQueue ?b = [] \<and> pendingSet ?b = [] \<and> rafId ?b = 0"
    using enqueue_plainDiv_overflow[OF aa, of 3999] a by (simp add: QUEUE_LIMIT_def)
  have ab: "active ?b" using i by simp
  have c: "pendingQueue ?c = [4000] \<and> pendingSet ?c = [4000] \<and> rafId ?c \<noteq> 0"
    using enqueue_plainDiv[OF ab, of 4000] b by (simp add: QUEUE_LIMIT_def)
  have e: "handleMutations [\<lparr>addedNodes = manyDivs 4001\<rparr>] ?i = ?c"
    using i(1) by (simp add: handleMutations_def manyDivs_4001 enqueueTrees_append)
  define cst where "cst = ?c"
  have w: "sessionInv cst"
    unfolding cst_def e[symmetric]
    by (rule sessionInv_handleMutations) (simp add: sessionInv_initialState noClasses_def)
  have c': "pendingQueue cst = [4000]" "pendingSet cst = [4000]" "rafId cst \<noteq> 0"
    using c unfolding cst_def by blast+
  have "hidden cst 4000 = (4000 \<in> set (pendingSet cst))"
    using w unfolding sessionInv_def markerInv_def by blast
  then have h: "hidden cst 4000" unfolding c' by simp
  have "rafCallbacks cst = (if rafId cst = 0 then [] else [rafId cst])"
    using w unfolding sessionInv_def rafInv_def by blast
  then have r: "rafCallbacks cst \<noteq> []" using c'(3) by simp
  show ?thesis unfolding e cst_def[symmetric] using c' h r by blast
qed

text \<open>
  C3, amended. When the walk of one inserted subtree leaves at least \<^verbatim>\<open>QUEUE_LIMIT\<close> entries
  in the queue, that same \<^verbatim>\<open>enqueueTree\<close> call empties the queue and the set, leaves no
  element hidden, resets the frame handle, leaves no frame callback outstanding and clears
  the flushing flag. This is the case in particular when the subtree holds 4001 walked
  nodes with distinct references, and a change notification whose only added node is that
  subtree ends in the same state.
\<close>

theorem overflow_reveals_all:
  assumes w: "sessionInv s" and a: "active s" and e: "nodeType rootEl = ELEMENT_NODE"
    and c: "closest ancs rootEl IGNORE_ATTR = None"
    and o: "QUEUE_LIMIT \<le> length (pendingQueue (enqueueEach (walkerNodes rootEl) s))
          \<or> (distinct (map nodeRef (walkerNodes rootEl)) \<and> 4001 \<le> length (walkerNodes rootEl))"
  shows "pendingQueue (enqueueTree (ancs, rootEl) s) = []
       \<and> pendingSet (enqueueTree (ancs, rootEl) s) = []
       \<and> (\<forall>el. \<not> hidden (enqueueTree (ancs, rootEl) s) el)
       \<and> rafId (enqueueTree (ancs, rootEl) s) = 0
       \<and> rafCallbacks (enqueueTree (ancs, rootEl) s) = []
       \<and> \<not> isFlushing (enqueueTree (ancs, rootEl) s)
       \<and> handleMutations [\<lparr>addedNodes = [(ancs, rootEl)]\<rparr>] s = enqueueTree (ancs, rootEl) s"
proof -
  let ?s1 = "enqueueEach (walkerNodes rootEl) s"
  have si: "storeInv s" using w by (simp add: sessionInv_def)
  have lim: "QUEUE_LIMIT \<le> length (pendingQueue ?s1)"
  proof (rule disjE[OF o])
    assume "distinct (map nodeRef (walkerNodes rootEl)) \<and> 4001 \<le> length (walkerNodes rootEl)"
    then have "4001 \<le> card (nodeRef ` set (walkerNodes rootEl))"
      by (metis distinct_card length_map set_map)
    also have "\<dots> \<le> card (set (pendingQueue ?s1))"
      by (rule card_mono) (simp_all add: enqueueEach_queue_set[OF si])
    also have "\<dots> \<le> length (pendingQueue ?s1)" by (rule card_length)
    finally show ?thesis by (simp add: QUEUE_LIMIT_def)
  qed
  have t: "enqueueTree (ancs, rootEl) s = revealAllPending ?s1"
    using a e c lim by (simp add: enqueueTree_def Let_def)
  have w': "sessionInv (enqueueTree (ancs, rootEl) s)" using w by (rule sessionInv_enqueueTree)
  have f: "pendingQueue (revealAllPending ?s1) = []" "pendingSet (revealAllPending ?s1) = []"
    "rafId (revealAllPending ?s1) = 0" "\<not> isFlushing (revealAllPending ?s1)"
    by simp_all
  have h: "\<forall>el. \<not> hidden (revealAllPending ?s1) el"
    using w' f unfolding t by (simp add: sessionInv_def markerInv_def)
  have r: "rafCallbacks (revealAllPending ?s1) = []"
    using w' f unfolding t by (simp add: sessionInv_def rafInv_def)
  have m: "handleMutations [\<lparr>addedNodes = [(ancs, rootEl)]\<rparr>] s = enqueueTree (ancs, rootEl) s"
    using a by (simp add: handleMutations_def)
  show ?thesis unfolding m unfolding t using f h r by simp
qed

theorem overflow_reveals_all_witness:
  "sessionInv (initialState noClasses steadyClock exactDifference)
   \<and> active (initialState noClasses steadyClock exactDifference)
   \<and> nodeType (wideTree 4000) = ELEMENT_NODE
   \<and> closest [] (wideTree 4000) IGNORE_ATTR = None
   \<and> distinct (map nodeRef (walkerNodes (wideTree 4000)))
   \<and> 4001 \<le> length (walkerNodes (wideTree 4000))
   \<and> pendingQueue (handleMutations [\<lparr>addedNodes = [([], wideTree 4000)]\<rparr>]
          (initialState noClasses steadyClock exactDifference)) = []
   \<and> rafId (handleMutations [\<lparr>addedNodes = [([], wideTree 4000)]\<rparr>]
          (initialState noClasses steadyClock exactDifference)) = 0
   \<and> rafCallbacks (handleMutations [\<lparr>addedNodes = [([], wideTree 4000)]\<rparr>]
          (initialState noClasses steadyClock exactDifference)) = []"
proof -
  let ?i = "initialState noClasses steadyClock exactDifference"
  have w: "sessionInv ?i" by (simp add: sessionInv_initialState noClasses_def)
  have a: "active ?i" by (simp add: initialState_def)
  note e = wideTree_facts(1)[of 4000]
  note c = wideTree_facts(2)[of 4000]
  note d = wideTree_walk(1)[of 4000]
  have l: "4001 \<le> length (walkerNodes (wideTree 4000))"
    unfolding wideTree_walk(2) by simp
  have o: "QUEUE_LIMIT \<le> length (pendingQueue (enqueueEach (walkerNodes (wideTree 4000)) ?i))
          \<or> (distinct (map nodeRef (walkerNodes (wideTree 4000)))
              \<and> 4001 \<le> length (walkerNodes (wideTree 4000)))"
    using d l by blast
  from overflow_reveals_all[OF w a e c o]
  have r: "pendingQueue (handleMutations [\<lparr>addedNodes = [([], wideTree 4000)]\<rparr>] ?i) = []"
    "rafId (handleMutations [\<lparr>addedNodes = [([], wideTree 4000)]\<rparr>] ?i) = 0"
    "rafCallbacks (handleMutations [\<lparr>addedNodes = [([], wideTree 4000)]\<rparr>] ?i) = []"
    by metis+
  show ?thesis
    by (intro conjI w a e c d l r)
qed

text \<open>
  C4. Draining is last in, first out. A flush step with \<^verbatim>\<open>active\<close> set and a non-empty
  queue always leaves a proper prefix of the queue: what it removes are the most recently
  enqueued entries. In the scenario, with \<^verbatim>\<open>maxOpsPerFrame = 2\<close>, a clock whose elapsed
  times never reach the time budget, an empty store, and five distinct elements inserted in the order
  A, B, C, D, E, the queue after the intake is [A, B, C, D, E]; the first frame leaves
  [A, B, C] with exactly A, B and C hidden and a further frame scheduled; the second leaves
  [A] with only A hidden and a further frame scheduled; the third leaves the queue empty,
  nothing hidden, no frame scheduled and the flushing flag cleared.
\<close>

theorem lifo_drain_scenario:
  assumes w: "sessionInv s" and a: "active s" and e: "pendingQueue s = []"
    and m: "maxOpsPerFrame s = 2"
    and u: "\<forall>i j. numberSub s (perfNow s j) (perfNow s i) < frameBudgetMs s"
    and d: "distinct [A, B, C, D, E]"
  shows "(let s1 = handleMutations [\<lparr>addedNodes = [([], plainDiv A), ([], plainDiv B),
                      ([], plainDiv C), ([], plainDiv D), ([], plainDiv E)]\<rparr>] s;
              s2 = animationFrame s1; s3 = animationFrame s2; s4 = animationFrame s3
          in pendingQueue s1 = [A, B, C, D, E]
           \<and> pendingQueue s2 = [A, B, C] \<and> (\<forall>el. hidden s2 el = (el \<in> {A, B, C}))
           \<and> rafCallbacks s2 \<noteq> []
           \<and> pendingQueue s3 = [A] \<and> (\<forall>el. hidden s3 el = (el = A))
           \<and> rafCallbacks s3 \<noteq> []
           \<and> pendingQueue s4 = [] \<and> (\<forall>el. \<not> hidden s4 el)
           \<and> rafId s4 = 0 \<and> rafCallbacks s4 = [] \<and> \<not> isFlushing s4)
       \<and> (\<forall>t. active t \<and> pendingQueue t \<noteq> [] \<longrightarrow>
             (\<exists>k < length (pendingQueue t). pendingQueue (flushQueue t) = take k (pendingQueue t)))"
proof -
  define s1 where "s1 = handleMutations [\<lparr>addedNodes = [([], plainDiv A), ([], plainDiv B),
                      ([], plainDiv C), ([], plainDiv D), ([], plainDiv E)]\<rparr>] s"
  define s2 where "s2 = animationFrame s1"
  define s3 where "s3 = animationFrame s2"
  define s4 where "s4 = animationFrame s3"
  have ps: "pendingSet s = []" using w e by (simp add: sessionInv_def storeInv_def)
  have h1: "s1 = enqueueTree ([], plainDiv E) (enqueueTree ([], plainDiv D) (enqueueTree ([], plainDiv C)
              (enqueueTree ([], plainDiv B) (enqueueTree ([], plainDiv A) s))))"
    using a by (simp add: s1_def handleMutations_def)
  define t1 where "t1 = enqueueTree ([], plainDiv A) s"
  define t2 where "t2 = enqueueTree ([], plainDiv B) t1"
  define t3 where "t3 = enqueueTree ([], plainDiv C) t2"
  define t4 where "t4 = enqueueTree ([], plainDiv D) t3"
  have s1t: "s1 = enqueueTree ([], plainDiv E) t4"
    by (simp add: h1 t1_def t2_def t3_def t4_def)
  have g1: "pendingQueue t1 = [A] \<and> pendingSet t1 = [A] \<and> active t1 \<and> maxOpsPerFrame t1 = 2
      \<and> frameBudgetMs t1 = frameBudgetMs s \<and> perfNow t1 = perfNow s
      \<and> numberSub t1 = numberSub s"
    unfolding t1_def using enqueue_plainDiv[of s A] a e ps m by (simp add: QUEUE_LIMIT_def)
  have g2: "pendingQueue t2 = [A, B] \<and> pendingSet t2 = [A, B] \<and> active t2 \<and> maxOpsPerFrame t2 = 2
      \<and> frameBudgetMs t2 = frameBudgetMs s \<and> perfNow t2 = perfNow s
      \<and> numberSub t2 = numberSub s"
    unfolding t2_def using enqueue_plainDiv[of t1 B] g1 d by (auto simp: QUEUE_LIMIT_def)
  have g3: "pendingQueue t3 = [A, B, C] \<and> pendingSet t3 = [A, B, C] \<and> active t3 \<and> maxOpsPerFrame t3 = 2
      \<and> frameBudgetMs t3 = frameBudgetMs s \<and> perfNow t3 = perfNow s
      \<and> numberSub t3 = numberSub s"
    unfolding t3_def using enqueue_plainDiv[of t2 C] g2 d by (auto simp: QUEUE_LIMIT_def)
  have g4: "pendingQueue t4 = [A, B, C, D] \<and> pendingSet t4 = [A, B, C, D] \<and> active t4 \<and> maxOpsPerFrame t4 = 2
      \<and> frameBudgetMs t4 = frameBudgetMs s \<and> perfNow t4 = perfNow s
      \<and> numberSub t4 = numberSub s"
    unfolding t4_def using enqueue_plainDiv[of t3 D] g3 d by (auto simp: QUEUE_LIMIT_def)
  have f1: "pendingQueue s1 = [A, B, C, D, E]" "active s1" "rafId s1 \<noteq> 0" "maxOpsPerFrame s1 = 2"
    "frameBudgetMs s1 = frameBudgetMs s" "perfNow s1 = perfNow s" "numberSub s1 = numberSub s"
    unfolding s1t using enqueue_plainDiv[of t4 E] g4 d by (auto simp: QUEUE_LIMIT_def)
  have w1: "sessionInv s1" unfolding s1_def using w by (rule sessionInv_handleMutations)
  have u1: "\<forall>i j. numberSub s1 (perfNow s1 j) (perfNow s1 i) < frameBudgetMs s1"
    using u f1 by simp
  have F2: "pendingQueue s2 = [A, B, C] \<and> sessionInv s2 \<and> active s2 \<and> maxOpsPerFrame s2 = 2
       \<and> frameBudgetMs s2 = frameBudgetMs s \<and> perfNow s2 = perfNow s
       \<and> numberSub s2 = numberSub s \<and> rafId s2 \<noteq> 0"
    using frame_unlimited[where t = s1 and k = 2, OF w1 f1(2) f1(3) _ _ _ u1] f1
    by (simp add: s2_def)
  then have u2: "\<forall>i j. numberSub s2 (perfNow s2 j) (perfNow s2 i) < frameBudgetMs s2"
    using u by simp
  have F3: "pendingQueue s3 = [A] \<and> sessionInv s3 \<and> active s3 \<and> maxOpsPerFrame s3 = 2
       \<and> frameBudgetMs s3 = frameBudgetMs s \<and> perfNow s3 = perfNow s
       \<and> numberSub s3 = numberSub s \<and> rafId s3 \<noteq> 0"
    using frame_unlimited[where t = s2 and k = 2, OF _ _ _ _ _ _ u2] F2 by (simp add: s3_def)
  then have u3: "\<forall>i j. numberSub s3 (perfNow s3 j) (perfNow s3 i) < frameBudgetMs s3"
    using u by simp
  have F4: "pendingQueue s4 = [] \<and> sessionInv s4 \<and> rafId s4 = 0 \<and> \<not> isFlushing s4"
    using frame_unlimited[where t = s3 and k = 2, OF _ _ _ _ _ _ u3] F3 by (auto simp: s4_def)
  have hid: "\<And>x el. sessionInv x \<Longrightarrow> hidden x el = (el \<in> set (pendingQueue x))"
    by (simp add: sessionInv_def storeInv_def markerInv_def)
  have cb: "\<And>x. sessionInv x \<Longrightarrow> (rafCallbacks x \<noteq> []) = (rafId x \<noteq> 0)"
    by (simp add: sessionInv_def rafInv_def)
  have scen: "pendingQueue s1 = [A, B, C, D, E]
           \<and> pendingQueue s2 = [A, B, C] \<and> (\<forall>el. hidden s2 el = (el \<in> {A, B, C}))
           \<and> rafCallbacks s2 \<noteq> []
           \<and> pendingQueue s3 = [A] \<and> (\<forall>el. hidden s3 el = (el = A))
           \<and> rafCallbacks s3 \<noteq> []
           \<and> pendingQueue s4 = [] \<and> (\<forall>el. \<not> hidden s4 el)
           \<and> rafId s4 = 0 \<and> rafCallbacks s4 = [] \<and> \<not> isFlushing s4"
    using f1(1) F2 F3 F4 hid[of s2] hid[of s3] hid[of s4] cb[of s2] cb[of s3] cb[of s4]
    by auto
  have gen: "\<forall>t. active t \<and> pendingQueue t \<noteq> [] \<longrightarrow>
             (\<exists>k < length (pendingQueue t). pendingQueue (flushQueue t) = take k (pendingQueue t))"
    using flushQueue_takes_suffix by blast
  show ?thesis
    using scen gen unfolding Let_def s1_def[symmetric] s2_def[symmetric] s3_def[symmetric] s4_def[symmetric]
    by blast
qed

theorem lifo_drain_scenario_witness:
  "sessionInv ((initialState noClasses steadyClock exactDifference)\<lparr>maxOpsPerFrame := 2\<rparr>)
   \<and> active ((initialState noClasses steadyClock exactDifference)\<lparr>maxOpsPerFrame := 2\<rparr>)
   \<and> pendingQueue ((initialState noClasses steadyClock exactDifference)\<lparr>maxOpsPerFrame := 2\<rparr>) = []
   \<and> maxOpsPerFrame ((initialState noClasses steadyClock exactDifference)\<lparr>maxOpsPerFrame := 2\<rparr>) = 2
   \<and> (\<forall>i j. numberSub ((initialState noClasses steadyClock exactDifference)\<lparr>maxOpsPerFrame := 2\<rparr>)
               (perfNow ((initialState noClasses steadyClock exactDifference)\<lparr>maxOpsPerFrame := 2\<rparr>) j)
               (perfNow ((initialState noClasses steadyClock exactDifference)\<lparr>maxOpsPerFrame := 2\<rparr>) i)
             < frameBudgetMs ((initialState noClasses steadyClock exactDifference)\<lparr>maxOpsPerFrame := 2\<rparr>))
   \<and> distinct [1, 2, 3, 4, 5 :: nat]
   \<and> pendingQueue (animationFrame (handleMutations
          [\<lparr>addedNodes = [([], plainDiv 1), ([], plainDiv 2), ([], plainDiv 3), ([], plainDiv 4),
              ([], plainDiv 5)]\<rparr>]
          ((initialState noClasses steadyClock exactDifference)\<lparr>maxOpsPerFrame := 2\<rparr>))) = [1, 2, 3]
   \<and> pendingQueue (animationFrame (animationFrame (handleMutations
          [\<lparr>addedNodes = [([], plainDiv 1), ([], plainDiv 2), ([], plainDiv 3), ([], plainDiv 4),
              ([], plainDiv 5)]\<rparr>]
          ((initialState noClasses steadyClock exactDifference)\<lparr>maxOpsPerFrame := 2\<rparr>)))) = [1]
   \<and> pendingQueue (animationFrame (animationFrame (animationFrame (handleMutations
          [\<lparr>addedNodes = [([], plainDiv 1), ([], plainDiv 2), ([], plainDiv 3), ([], plainDiv 4),
              ([], plainDiv 5)]\<rparr>]
          ((initialState noClasses steadyClock exactDifference)\<lparr>maxOpsPerFrame := 2\<rparr>))))) = []
   \<and> rafId (animationFrame (animationFrame (animationFrame (handleMutations
          [\<lparr>addedNodes = [([], plainDiv 1), ([], plainDiv 2), ([], plainDiv 3), ([], plainDiv 4),
              ([], plainDiv 5)]\<rparr>]
          ((initialState noClasses steadyClock exactDifference)\<lparr>maxOpsPerFrame := 2\<rparr>))))) = 0"
proof -
  let ?s = "(initialState noClasses steadyClock exactDifference)\<lparr>maxOpsPerFrame := 2\<rparr>"
  have w: "sessionInv ?s"
    by (simp add: sessionInv_def storeInv_def markerInv_def rafInv_def hidden_def classList_contains_def
        initialState_def noClasses_def)
  have a: "active ?s" and e: "pendingQueue ?s = []" and m: "maxOpsPerFrame ?s = 2"
    by (simp_all add: initialState_def)
  have u: "\<forall>i j. numberSub ?s (perfNow ?s j) (perfNow ?s i) < frameBudgetMs ?s"
    by (simp add: initialState_def steadyClock_def exactDifference_def)
  have d: "distinct [1, 2, 3, 4, 5 :: nat]" by simp
  show ?thesis
    using w a e m u d lifo_drain_scenario[OF w a e m u d] unfolding Let_def by blast
qed

text \<open>
  C5. The set and the sequence of the pending store stay in lock-step. From a state in
  which they hold the same references, each once, every sequence of events leads to a state
  in which the set and the sequence have the same length and the same members, no
  reference occurs twice in either, and enqueueing a reference that is present changes
  nothing.
\<close>

theorem pending_store_lockstep:
  assumes "storeInv s"
  shows "length (pendingSet (run es s)) = length (pendingQueue (run es s))
       \<and> distinct (pendingQueue (run es s))
       \<and> distinct (pendingSet (run es s))
       \<and> set (pendingSet (run es s)) = set (pendingQueue (run es s))
       \<and> (el \<in> set (pendingQueue (run es s)) \<longrightarrow> enqueueElement el (run es s) = run es s)"
proof -
  have i: "storeInv (run es s)" using assms by (rule storeInv_run)
  then have "length (pendingSet (run es s)) = length (pendingQueue (run es s))"
    by (metis storeInv_def distinct_card)
  moreover have "el \<in> set (pendingQueue (run es s)) \<longrightarrow> enqueueElement el (run es s) = run es s"
    using i by (simp add: storeInv_def enqueueElement_def Set_has_def)
  ultimately show ?thesis using i by (simp add: storeInv_def)
qed

theorem pending_store_lockstep_witness:
  "storeInv (initialState noClasses steadyClock exactDifference)
   \<and> pendingQueue (run [Mutations [\<lparr>addedNodes = [([], plainDiv 1), ([], plainDiv 2)]\<rparr>],
                        Mutations [\<lparr>addedNodes = [([], plainDiv 2), ([], plainDiv 3)]\<rparr>]]
                    (initialState noClasses steadyClock exactDifference)) = [1, 2, 3]
   \<and> length (pendingSet (run [Mutations [\<lparr>addedNodes = [([], plainDiv 1), ([], plainDiv 2)]\<rparr>],
                        Mutations [\<lparr>addedNodes = [([], plainDiv 2), ([], plainDiv 3)]\<rparr>]]
                    (initialState noClasses steadyClock exactDifference))) = 3
   \<and> 3 \<in> set (pendingQueue (run [Mutations [\<lparr>addedNodes = [([], plainDiv 1), ([], plainDiv 2)]\<rparr>],
                        Mutations [\<lparr>addedNodes = [([], plainDiv 2), ([], plainDiv 3)]\<rparr>]]
                    (initialState noClasses steadyClock exactDifference)))
   \<and> enqueueElement 3 (run [Mutations [\<lparr>addedNodes = [([], plainDiv 1), ([], plainDiv 2)]\<rparr>],
                        Mutations [\<lparr>addedNodes = [([], plainDiv 2), ([], plainDiv 3)]\<rparr>]]
                    (initialState noClasses steadyClock exactDifference))
       = run [Mutations [\<lparr>addedNodes = [([], plainDiv 1), ([], plainDiv 2)]\<rparr>],
              Mutations [\<lparr>addedNodes = [([], plainDiv 2), ([], plainDiv 3)]\<rparr>]]
           (initialState noClasses steadyClock exactDifference)"
proof -
  let ?es = "[Mutations [\<lparr>addedNodes = [([], plainDiv 1), ([], plainDiv 2)]\<rparr>],
              Mutations [\<lparr>addedNodes = [([], plainDiv 2), ([], plainDiv 3)]\<rparr>]]"
  have h: "storeInv (initialState noClasses steadyClock exactDifference)"
    by (simp add: storeInv_def initialState_def)
  have q: "pendingQueue (run ?es (initialState noClasses steadyClock exactDifference)) = [1, 2, 3]"
    by (simp add: session_defs)
  show ?thesis
    using h q pending_store_lockstep[OF h, of ?es 3] by simp
qed

text \<open>
  C6 on the code. Inside a walked subtree the filter tests \<^verbatim>\<open>shouldSkipElement\<close> before
  the ignore attribute, so an element with an excluded tag that carries the ignore marker
  is skipped, not rejected, and its children are visited. A BODY element with the ignore
  marker and a DIV child, inserted below a DIV root, leaves the child enqueued and hidden.
  The check that \<^verbatim>\<open>enqueueTree\<close> makes with \<^verbatim>\<open>closest\<close> honours the marker on the same
  element: when the marked BODY is the inserted root, or the parent of an inserted DIV,
  nothing is enqueued.
\<close>

theorem marked_skip_node_children_enqueued:
  "hasAttribute (Element 1 ''BODY'' [] [IGNORE_ATTR] [Element 2 ''DIV'' [] [] []]) IGNORE_ATTR
   \<and> Element 1 ''BODY'' [] [IGNORE_ATTR] [Element 2 ''DIV'' [] [] []]
       \<in> set (subtreeNodes (Element 0 ''DIV'' [] []
                [Element 1 ''BODY'' [] [IGNORE_ATTR] [Element 2 ''DIV'' [] [] []]]))
   \<and> Element 2 ''DIV'' [] [] []
       \<in> set (subtreeNodes (Element 1 ''BODY'' [] [IGNORE_ATTR] [Element 2 ''DIV'' [] [] []]))
   \<and> nodeRef (Element 2 ''DIV'' [] [] [])
       \<notin> set (pendingQueue (initialState noClasses steadyClock exactDifference))
   \<and> pendingQueue (enqueueTree ([], Element 0 ''DIV'' [] []
                [Element 1 ''BODY'' [] [IGNORE_ATTR] [Element 2 ''DIV'' [] [] []]])
              (initialState noClasses steadyClock exactDifference)) = [0, 2]
   \<and> hidden (enqueueTree ([], Element 0 ''DIV'' [] []
                [Element 1 ''BODY'' [] [IGNORE_ATTR] [Element 2 ''DIV'' [] [] []]])
              (initialState noClasses steadyClock exactDifference)) 2
   \<and> pendingQueue (enqueueTree
              ([], Element 1 ''BODY'' [] [IGNORE_ATTR] [Element 2 ''DIV'' [] [] []])
              (initialState noClasses steadyClock exactDifference)) = []
   \<and> pendingQueue (enqueueTree
              ([Element 1 ''BODY'' [] [IGNORE_ATTR] [Element 2 ''DIV'' [] [] []]],
               Element 2 ''DIV'' [] [] [])
              (initialState noClasses steadyClock exactDifference)) = []"
  by (simp add: session_defs)

text \<open>
  Where the code does keep a marked node and what lies below it out of the queue. Let a
  node N carry the ignore marker, in an inserted subtree whose nodes have distinct
  references. If N is the inserted root or one of its ancestors, the intake call changes
  nothing. If N lies in the subtree, N itself is not enqueued by the call. If N is the
  root, or lies in the subtree and \<^verbatim>\<open>shouldSkipElement\<close> does not hold of it, no node of the
  subtree of N is enqueued by the call: it is in the queue afterwards only if it was
  before.
\<close>

lemma marked_node_cases:
  assumes mk: "hasAttribute N IGNORE_ATTR"
    and ds: "distinct (map nodeRef (subtreeNodes rootEl))"
  shows "(N \<in> set (rootEl # ancs) \<longrightarrow> enqueueTree (ancs, rootEl) s = s)
       \<and> (N \<in> set (subtreeNodes rootEl) \<longrightarrow>
            nodeRef N \<in> set (pendingQueue (enqueueTree (ancs, rootEl) s))
            \<longrightarrow> nodeRef N \<in> set (pendingQueue s))
       \<and> (N \<in> set (subtreeNodes rootEl) \<and> (N = rootEl \<or> \<not> shouldSkipElement N)
            \<and> M \<in> set (subtreeNodes N) \<longrightarrow>
            nodeRef M \<in> set (pendingQueue (enqueueTree (ancs, rootEl) s))
            \<longrightarrow> nodeRef M \<in> set (pendingQueue s))"
proof -
  let ?cs = "childNodes rootEl"
  have above: "N \<in> set (rootEl # ancs) \<Longrightarrow> enqueueTree (ancs, rootEl) s = s"
  proof -
    assume "N \<in> set (rootEl # ancs)"
    then have "closest ancs rootEl IGNORE_ATTR \<noteq> None"
      unfolding closest_Some using mk by blast
    then show ?thesis by (simp add: enqueueTree_def)
  qed
  have dcs: "distinct (map nodeRef (subtreeNodesList ?cs))"
    and rt: "nodeRef rootEl \<notin> nodeRef ` set (subtreeNodesList ?cs)"
    using ds by (simp_all add: subtreeNodes_childNodes[of rootEl])
  have sub: "set (pendingQueue (enqueueTree (ancs, rootEl) s))
      \<subseteq> set (pendingQueue s) \<union> insert (nodeRef rootEl) (nodeRef ` set (nextNodesList ?cs))"
    using enqueueTree_queue_subset[of ancs rootEl s] by (simp add: walkerNodes_def)
  have c3: "N \<in> set (subtreeNodes rootEl) \<and> (N = rootEl \<or> \<not> shouldSkipElement N)
            \<and> M \<in> set (subtreeNodes N) \<longrightarrow>
            nodeRef M \<in> set (pendingQueue (enqueueTree (ancs, rootEl) s))
            \<longrightarrow> nodeRef M \<in> set (pendingQueue s)"
  proof (intro impI)
    assume h: "N \<in> set (subtreeNodes rootEl) \<and> (N = rootEl \<or> \<not> shouldSkipElement N)
            \<and> M \<in> set (subtreeNodes N)"
      and q: "nodeRef M \<in> set (pendingQueue (enqueueTree (ancs, rootEl) s))"
    show "nodeRef M \<in> set (pendingQueue s)"
    proof (cases "N = rootEl")
      case True
      then show ?thesis using above q by simp
    next
      case False
      then have N: "N \<in> set (subtreeNodesList ?cs)" and ns: "\<not> shouldSkipElement N"
        and MN: "M \<in> set (subtreeNodes N)"
        using h by (simp_all add: subtreeNodes_childNodes[of rootEl])
      have rej: "filterNode N = FILTER_REJECT" using marked_rejected[OF mk ns] .
      have a: "nodeRef M \<notin> nodeRef ` set (nextNodesList ?cs)"
        using rejected_subtree_not_walked(2)[OF dcs N rej MN] .
      have "M \<in> set (subtreeNodesList ?cs)" using subtreeNodes_trans(2)[OF N] MN by blast
      then have b: "nodeRef M \<noteq> nodeRef rootEl" using rt by (metis image_eqI)
      show ?thesis using sub a b q by blast
    qed
  qed
  have c2: "N \<in> set (subtreeNodes rootEl) \<longrightarrow>
            nodeRef N \<in> set (pendingQueue (enqueueTree (ancs, rootEl) s))
            \<longrightarrow> nodeRef N \<in> set (pendingQueue s)"
  proof (intro impI)
    assume Nin: "N \<in> set (subtreeNodes rootEl)"
      and q: "nodeRef N \<in> set (pendingQueue (enqueueTree (ancs, rootEl) s))"
    show "nodeRef N \<in> set (pendingQueue s)"
    proof (cases "N = rootEl")
      case True
      then show ?thesis using above q by simp
    next
      case False
      then have Ncs: "N \<in> set (subtreeNodesList ?cs)"
        using Nin by (simp add: subtreeNodes_childNodes[of rootEl])
      then have b: "nodeRef N \<noteq> nodeRef rootEl" using rt by (metis image_eqI)
      have "nodeRef N \<notin> nodeRef ` set (nextNodesList ?cs)"
      proof
        assume "nodeRef N \<in> nodeRef ` set (nextNodesList ?cs)"
        then obtain x where x: "x \<in> set (nextNodesList ?cs)" "nodeRef x = nodeRef N" by auto
        have "x \<in> set (subtreeNodesList ?cs)" using x(1) nextNodes_subset(2) by blast
        then have "x = N" using Ncs x(2) dcs by (meson distinct_map inj_onD)
        then show False using nextNodes_accepted(2)[OF x(1)] marked_not_accepted[OF mk] by simp
      qed
      then show ?thesis using sub b q by blast
    qed
  qed
  show ?thesis using above c2 c3 by blast
qed

text \<open>
  C7 on the code. The walker never filters its root: \<^verbatim>\<open>enqueueTree\<close> enqueues
  \<^verbatim>\<open>walker.currentNode\<close> before the first \<^verbatim>\<open>nextNode()\<close>. An inserted STYLE element, for
  which \<^verbatim>\<open>shouldSkipElement\<close> holds, is therefore enqueued and hidden when it is the root of
  the inserted subtree, while the same element below an inserted DIV is skipped and only
  the DIV and the STYLE element's child are enqueued.
\<close>

theorem excluded_root_is_enqueued:
  "shouldSkipElement (Element 7 ''STYLE'' [] [] [Element 8 ''SPAN'' [] [] []])
   \<and> pendingQueue (enqueueTree ([], Element 7 ''STYLE'' [] [] [Element 8 ''SPAN'' [] [] []])
        (initialState noClasses steadyClock exactDifference)) = [7, 8]
   \<and> hidden (enqueueTree ([], Element 7 ''STYLE'' [] [] [Element 8 ''SPAN'' [] [] []])
        (initialState noClasses steadyClock exactDifference)) 7
   \<and> pendingQueue (enqueueTree ([], Element 0 ''DIV'' [] []
          [Element 7 ''STYLE'' [] [] [Element 8 ''SPAN'' [] [] []]])
        (initialState noClasses steadyClock exactDifference)) = [0, 8]"
  by (simp add: session_defs)

text \<open>
  C8. Disabling reveals everything. When \<^verbatim>\<open>active\<close> is set to false, the listener empties
  the pending queue and the pending set, no element is hidden any more, the frame handle
  is reset and no animation frame callback stays outstanding. In any state in which
  \<^verbatim>\<open>active\<close> is false, \<^verbatim>\<open>handleMutations\<close> and \<^verbatim>\<open>enqueueTree\<close> leave the state as it is.
\<close>

theorem disable_reveals_all:
  assumes "sessionInv s"
  shows "pendingQueue (setActive False s) = []
       \<and> pendingSet (setActive False s) = []
       \<and> (\<forall>el. \<not> hidden (setActive False s) el)
       \<and> rafId (setActive False s) = 0
       \<and> rafCallbacks (setActive False s) = []
       \<and> \<not> isFlushing (setActive False s)
       \<and> \<not> active (setActive False s)
       \<and> (\<forall>t ms an. \<not> active t \<longrightarrow> handleMutations ms t = t \<and> enqueueTree an t = t)"
proof -
  have w: "sessionInv (setActive False s)" using assms by (rule sessionInv_setActive)
  have f: "pendingSet (setActive False s) = []" "rafId (setActive False s) = 0"
    by (simp_all add: setActive_def activeListener_def)
  have "\<forall>el. \<not> hidden (setActive False s) el"
    using w f by (simp add: sessionInv_def markerInv_def)
  moreover have "rafCallbacks (setActive False s) = []"
    using w f by (simp add: sessionInv_def rafInv_def)
  moreover have "\<forall>t ms an. \<not> active t \<longrightarrow> handleMutations ms t = t \<and> enqueueTree an t = t"
    by (auto simp: handleMutations_def enqueueTree_def)
  ultimately show ?thesis by (simp add: setActive_def activeListener_def)
qed

theorem disable_reveals_all_witness:
  "sessionInv (run [Mutations [\<lparr>addedNodes = [([], plainDiv 1), ([], plainDiv 2)]\<rparr>]]
         (initialState noClasses steadyClock exactDifference))
   \<and> pendingQueue (run [Mutations [\<lparr>addedNodes = [([], plainDiv 1), ([], plainDiv 2)]\<rparr>]]
         (initialState noClasses steadyClock exactDifference)) = [1, 2]
   \<and> pendingQueue (setActive False
        (run [Mutations [\<lparr>addedNodes = [([], plainDiv 1), ([], plainDiv 2)]\<rparr>]]
           (initialState noClasses steadyClock exactDifference))) = []
   \<and> rafCallbacks (setActive False
        (run [Mutations [\<lparr>addedNodes = [([], plainDiv 1), ([], plainDiv 2)]\<rparr>]]
           (initialState noClasses steadyClock exactDifference))) = []
   \<and> \<not> hidden (setActive False
        (run [Mutations [\<lparr>addedNodes = [([], plainDiv 1), ([], plainDiv 2)]\<rparr>]]
           (initialState noClasses steadyClock exactDifference))) 2
   \<and> handleMutations [\<lparr>addedNodes = [([], plainDiv 3)]\<rparr>] (setActive False
        (run [Mutations [\<lparr>addedNodes = [([], plainDiv 1), ([], plainDiv 2)]\<rparr>]]
           (initialState noClasses steadyClock exactDifference)))
      = setActive False
        (run [Mutations [\<lparr>addedNodes = [([], plainDiv 1), ([], plainDiv 2)]\<rparr>]]
           (initialState noClasses steadyClock exactDifference))"
proof -
  let ?s = "run [Mutations [\<lparr>addedNodes = [([], plainDiv 1), ([], plainDiv 2)]\<rparr>]]
              (initialState noClasses steadyClock exactDifference)"
  have h: "sessionInv ?s"
    by (rule sessionInv_run) (simp add: sessionInv_initialState noClasses_def)
  have q: "pendingQueue ?s = [1, 2]"
    by (simp add: initialState_def noClasses_def plainDiv_def handleMutations_def
        enqueueTree_def closest_def walkerNodes_def enqueueElement_def Set_has_def Set_add_def
        classList_add_def QUEUE_LIMIT_def ELEMENT_NODE_def Let_def)
  show ?thesis
    using h q disable_reveals_all[OF h] by blast
qed

text \<open>
  C9. The reveal action, \<^verbatim>\<open>el.classList.remove(PENDING_CLASS)\<close>, is idempotent: applied
  twice it gives the state that one application gives; applied to an element without the
  marker it changes nothing; and after it the element is not hidden.
\<close>

theorem reveal_idempotent:
  "classList_remove el PENDING_CLASS (classList_remove el PENDING_CLASS s)
      = classList_remove el PENDING_CLASS s
   \<and> (\<not> hidden s el \<longrightarrow> classList_remove el PENDING_CLASS s = s)
   \<and> \<not> hidden (classList_remove el PENDING_CLASS s) el"
  by (simp add: classList_remove_def tokens_remove_def hidden_def classList_contains_def)

theorem reveal_idempotent_witness:
  "classList_remove 1 PENDING_CLASS
      (classList_remove 1 PENDING_CLASS (initialState noClasses steadyClock exactDifference))
      = classList_remove 1 PENDING_CLASS (initialState noClasses steadyClock exactDifference)
   \<and> \<not> hidden (initialState noClasses steadyClock exactDifference) 1
   \<and> classList_remove 1 PENDING_CLASS (initialState noClasses steadyClock exactDifference)
      = initialState noClasses steadyClock exactDifference
   \<and> \<not> hidden (classList_remove 1 PENDING_CLASS (initialState noClasses steadyClock exactDifference)) 1"
proof -
  have h: "\<not> hidden (initialState noClasses steadyClock exactDifference) 1"
    by (simp add: hidden_def classList_contains_def initialState_def noClasses_def)
  show ?thesis
    using h reveal_idempotent[of 1 "initialState noClasses steadyClock exactDifference"] by blast
qed

text \<open>
  C10. Progress of a flush step. Whatever \<^verbatim>\<open>maxOpsPerFrame\<close>, \<^verbatim>\<open>frameBudgetMs\<close> and the
  clock are, a call of \<^verbatim>\<open>flushQueue\<close> with \<^verbatim>\<open>active\<close> set and a non-empty queue leaves
  a strictly shorter queue, which is a proper prefix of the old one, and the most recently
  enqueued element is revealed by it.
\<close>

theorem flushQueue_progress:
  assumes "active s" and "pendingQueue s \<noteq> []"
  shows "length (pendingQueue (flushQueue s)) < length (pendingQueue s)
       \<and> \<not> hidden (flushQueue s) (last (pendingQueue s))
       \<and> (\<exists>k < length (pendingQueue s). pendingQueue (flushQueue s) = take k (pendingQueue s))"
proof -
  let ?t = "tick (s\<lparr>rafId := 0\<rparr>)"
  let ?r = "flushLoop (maxOpsPerFrame s) (frameBudgetMs s) (perfNow s (perfReads s)) 0 ?t"
  have ne: "pendingQueue ?t \<noteq> []" using assms(2) by simp
  have q: "pendingQueue (flushQueue s) = pendingQueue ?r"
    using assms by (simp add: flushQueue_active)
  have h: "hidden (flushQueue s) = hidden ?r"
    using assms by (auto simp: flushQueue_active)
  have d: "length (pendingQueue ?r) < length (pendingQueue s)"
    using flushLoop_decreases[OF ne] by simp
  have l: "\<not> hidden ?r (last (pendingQueue s))"
    using flushLoop_reveals_last[OF ne] by simp
  have p: "pendingQueue ?r = take (length (pendingQueue ?r)) (pendingQueue s)"
    using flushLoop_prefix[of "maxOpsPerFrame s" "frameBudgetMs s" "perfNow s (perfReads s)" 0 ?t] by simp
  show ?thesis unfolding q h using d l p by blast
qed

theorem flushQueue_progress_witness:
  "active (handleMutations [\<lparr>addedNodes = [([], plainDiv 1), ([], plainDiv 2), ([], plainDiv 3)]\<rparr>]
             ((initialState noClasses steadyClock exactDifference)\<lparr>maxOpsPerFrame := 1, frameBudgetMs := 0\<rparr>))
   \<and> pendingQueue (handleMutations
             [\<lparr>addedNodes = [([], plainDiv 1), ([], plainDiv 2), ([], plainDiv 3)]\<rparr>]
             ((initialState noClasses steadyClock exactDifference)\<lparr>maxOpsPerFrame := 1, frameBudgetMs := 0\<rparr>))
       = [1, 2, 3]
   \<and> hidden (handleMutations
             [\<lparr>addedNodes = [([], plainDiv 1), ([], plainDiv 2), ([], plainDiv 3)]\<rparr>]
             ((initialState noClasses steadyClock exactDifference)\<lparr>maxOpsPerFrame := 1, frameBudgetMs := 0\<rparr>)) 3
   \<and> length (pendingQueue (flushQueue (handleMutations
             [\<lparr>addedNodes = [([], plainDiv 1), ([], plainDiv 2), ([], plainDiv 3)]\<rparr>]
             ((initialState noClasses steadyClock exactDifference)\<lparr>maxOpsPerFrame := 1, frameBudgetMs := 0\<rparr>)))) < 3
   \<and> \<not> hidden (flushQueue (handleMutations
             [\<lparr>addedNodes = [([], plainDiv 1), ([], plainDiv 2), ([], plainDiv 3)]\<rparr>]
             ((initialState noClasses steadyClock exactDifference)\<lparr>maxOpsPerFrame := 1, frameBudgetMs := 0\<rparr>))) 3"
proof -
  let ?s = "handleMutations [\<lparr>addedNodes = [([], plainDiv 1), ([], plainDiv 2), ([], plainDiv 3)]\<rparr>]
             ((initialState noClasses steadyClock exactDifference)\<lparr>maxOpsPerFrame := 1, frameBudgetMs := 0\<rparr>)"
  have a: "active ?s" by (simp add: initialState_def)
  have q: "pendingQueue ?s = [1, 2, 3]" by (simp add: session_defs)
  have h: "hidden ?s 3" by (simp add: session_defs)
  have n: "pendingQueue ?s \<noteq> []" unfolding q by simp
  show ?thesis
    using a q h flushQueue_progress[OF a n] unfolding q by simp
qed

end
